theory Spec2Isabelle
  imports Complex_Main "HOL-Library.Product_Lexorder" "HOL-Library.AList" "HOL-Library.Sublist"
begin

section \<open>Calendar dates\<close>

text \<open>
  The program handles dates as \<open>QDate\<close> values. A date is modelled by its three fields
  (year, month, day), compared lexicographically; the null (invalid) date has all fields 0,
  as \<open>QDate.year()\<close>, \<open>month()\<close> and \<open>day()\<close> report for it. On valid dates of the years
  1 and later the lexicographic order is the order of Julian day numbers that \<open>QDate\<close>
  compares, and the null date is below all of them (it is not below the dates before the
  year 1, as it is for \<open>QDate\<close>). Amounts and rates, Python floats in the program, are
  modelled as real numbers: sums and quotients are exact here and rounded there.
\<close>

type_synonym qdate = "int \<times> int \<times> int"

fun year :: "qdate \<Rightarrow> int" where
  "year (y, m, d) = y"

fun month :: "qdate \<Rightarrow> int" where
  "month (y, m, d) = m"

fun day :: "qdate \<Rightarrow> int" where
  "day (y, m, d) = d"

definition nullDate :: qdate where
  "nullDate = (0, 0, 0)"

definition isLeapYear :: "int \<Rightarrow> bool" where
  \<comment> \<open>The proleptic Gregorian rule; there is no year 0, so the year before year 1 is -1.\<close>
  "isLeapYear y =
     (let y' = (if y < 1 then y + 1 else y)
      in y' mod 4 = 0 \<and> (y' mod 100 \<noteq> 0 \<or> y' mod 400 = 0))"

definition days_in_month :: "int \<Rightarrow> int \<Rightarrow> int" where
  "days_in_month y m =
     (if m < 1 \<or> 12 < m then 0
      else if m = 2 then (if isLeapYear y then 29 else 28)
      else if m = 4 \<or> m = 6 \<or> m = 9 \<or> m = 11 then 30
      else 31)"

definition isValid :: "qdate \<Rightarrow> bool" where
  "isValid dt = (year dt \<noteq> 0 \<and> 1 \<le> day dt \<and> day dt \<le> days_in_month (year dt) (month dt))"

definition QDate :: "int \<Rightarrow> int \<Rightarrow> int \<Rightarrow> qdate" where
  \<comment> \<open>The constructor \<open>QDate(y, m, d)\<close>: the null date when the fields name no day.\<close>
  "QDate y m d = (if isValid (y, m, d) then (y, m, d) else nullDate)"

definition daysInMonth :: "qdate \<Rightarrow> int" where
  "daysInMonth dt = (if isValid dt then days_in_month (year dt) (month dt) else 0)"

definition daysInYear :: "qdate \<Rightarrow> int" where
  "daysInYear dt = (if isValid dt then (if isLeapYear (year dt) then 366 else 365) else 0)"

definition addMonths :: "qdate \<Rightarrow> int \<Rightarrow> qdate" where
  \<comment> \<open>\<open>QDate.addMonths\<close>: the month moves by \<open>n\<close>, the year follows (stepping over the
      missing year 0), and the day is cut down to the length of the month reached.\<close>
  "addMonths dt n =
     (if \<not> isValid dt then nullDate
      else
        let t = month dt - 1 + n;
            y1 = year dt + t div 12;
            m = t mod 12 + 1;
            y = (if 0 < year dt \<and> y1 \<le> 0 then y1 - 1
                 else if year dt < 0 \<and> 0 \<le> y1 then y1 + 1
                 else y1)
        in (y, m, min (day dt) (days_in_month y m)))"

definition nextDay :: "qdate \<Rightarrow> qdate" where
  \<comment> \<open>The day with the next Julian day number.\<close>
  "nextDay dt =
     (if day dt < days_in_month (year dt) (month dt) then (year dt, month dt, day dt + 1)
      else if month dt < 12 then (year dt, month dt + 1, 1)
      else ((if year dt = -1 then 1 else year dt + 1), 1, 1))"

definition addDays :: "qdate \<Rightarrow> nat \<Rightarrow> qdate" where
  \<comment> \<open>\<open>QDate.addDays(n)\<close> for \<open>n \<ge> 0\<close>, the only way the program calls it.\<close>
  "addDays dt n = (if isValid dt then (nextDay ^^ n) dt else nullDate)"

definition ce_date :: "qdate \<Rightarrow> bool" where
  \<comment> \<open>A valid date of the Common Era (year 1 or later), as every date is that the date
      fields of the user interface can hold.\<close>
  "ce_date dt = (isValid dt \<and> 1 \<le> year dt)"

definition month_number :: "qdate \<Rightarrow> int" where
  \<comment> \<open>Calendar months counted on one scale: \<open>year * 12 + month - 1\<close>.\<close>
  "month_number dt = year dt * 12 + (month dt - 1)"

definition first_of_month :: "int \<Rightarrow> qdate" where
  \<comment> \<open>The first day of the month with the given number.\<close>
  "first_of_month i = (i div 12, i mod 12 + 1, 1)"

section \<open>Date strings\<close>

definition digit :: "nat \<Rightarrow> char" where
  "digit n = ''0123456789'' ! (n mod 10)"

fun digits :: "nat \<Rightarrow> string" where
  "digits n = (if n < 10 then [digit n] else digits (n div 10) @ [digit n])"

declare digits.simps [simp del]

definition pad :: "nat \<Rightarrow> string \<Rightarrow> string" where
  "pad w s = replicate (w - length s) (CHR ''0'') @ s"

definition fmt_num :: "nat \<Rightarrow> int \<Rightarrow> string" where
  \<comment> \<open>A number in decimal, zero-padded to at least \<open>w\<close> digits, with a sign when negative.\<close>
  "fmt_num w i = (if i < 0 then CHR ''-'' # pad w (digits (nat (- i))) else pad w (digits (nat i)))"

definition fmt_year :: "int \<Rightarrow> string" where
  \<comment> \<open>The format \<open>yyyy\<close>: four digits, with a minus sign before them for a negative year;
      a year above 9999 is written with all its digits after a plus sign.\<close>
  "fmt_year y =
     (if y < 0 then CHR ''-'' # pad 4 (digits (nat (- y)))
      else if 9999 < y then CHR ''+'' # digits (nat y)
      else pad 4 (digits (nat y)))"

definition toString_yyyy_MM_dd :: "qdate \<Rightarrow> string" where
  \<comment> \<open>\<open>date.toString('yyyy-MM-dd')\<close>; the null date gives the empty string.\<close>
  "toString_yyyy_MM_dd dt =
     (if isValid dt
      then fmt_year (year dt) @ ''-'' @ fmt_num 2 (month dt) @ ''-'' @ fmt_num 2 (day dt)
      else [])"

definition toString_yyyy_MM :: "qdate \<Rightarrow> string" where
  \<comment> \<open>\<open>date.toString('yyyy-MM')\<close>.\<close>
  "toString_yyyy_MM dt =
     (if isValid dt then fmt_year (year dt) @ ''-'' @ fmt_num 2 (month dt) else [])"

definition is_digit :: "char \<Rightarrow> bool" where
  "is_digit c = (c \<in> set ''0123456789'')"

definition digit_val :: "char \<Rightarrow> nat" where
  \<comment> \<open>The position of a character among the ten digits; 0 for any other character.\<close>
  "digit_val c = length (takeWhile (\<lambda>d. d \<noteq> c) ''0123456789'') mod 10"

definition num_of :: "string \<Rightarrow> nat" where
  "num_of s = foldl (\<lambda>a c. 10 * a + digit_val c) 0 s"

definition fromString_dd_MM_yyyy :: "string \<Rightarrow> qdate" where
  \<comment> \<open>\<open>QDate.fromString(s, 'dd.MM.yyyy')\<close>: two digits, a dot, two digits, a dot, four
      digits; the null date for any other text or for fields that name no day.\<close>
  "fromString_dd_MM_yyyy s =
     (if length s = 10 \<and> s ! 2 = CHR ''.'' \<and> s ! 5 = CHR ''.''
         \<and> list_all is_digit (take 2 s) \<and> list_all is_digit (take 2 (drop 3 s))
         \<and> list_all is_digit (drop 6 s)
      then QDate (int (num_of (drop 6 s))) (int (num_of (take 2 (drop 3 s))))
                 (int (num_of (take 2 s)))
      else nullDate)"

section \<open>Contract settings and the effective rate\<close>

record rate_change =
  date :: string
  rate :: real

record contract_settings =
  start_date :: qdate
  end_date :: qdate
  initial_rate :: real
  rate_history :: "rate_change list"
  contract_amount :: real

definition change_date :: "rate_change \<Rightarrow> qdate" where
  "change_date rc = fromString_dd_MM_yyyy (date rc)"

fun scan_rates :: "qdate \<Rightarrow> rate_change list \<Rightarrow> real \<Rightarrow> real" where
  \<comment> \<open>The \<open>for\<close> loop over the sorted history, with its \<open>break\<close>.\<close>
  "scan_rates dt [] effective_rate = effective_rate"
| "scan_rates dt (rc # rest) effective_rate =
     (if change_date rc \<le> dt then scan_rates dt rest (rate rc) else effective_rate)"

definition qualifying :: "qdate \<Rightarrow> contract_settings \<Rightarrow> rate_change list" where
  \<comment> \<open>The history entries in force at or before a date, in the order they are listed.\<close>
  "qualifying dt cs = filter (\<lambda>rc. change_date rc \<le> dt) (rate_history cs)"

definition rate_example :: contract_settings where
  "rate_example =
     \<lparr>start_date = (2022, 1, 1), end_date = (2024, 1, 1), initial_rate = 3,
      rate_history = [\<lparr>date = ''01.01.2023'', rate = 5\<rparr>, \<lparr>date = ''01.06.2023'', rate = 7\<rparr>],
      contract_amount = 24000\<rparr>"

definition same_date_example :: contract_settings where
  "same_date_example =
     \<lparr>start_date = (2022, 1, 1), end_date = (2024, 1, 1), initial_rate = 3,
      rate_history = [\<lparr>date = ''01.06.2023'', rate = 7\<rparr>, \<lparr>date = ''01.01.2023'', rate = 5\<rparr>,
                      \<lparr>date = ''01.06.2023'', rate = 9\<rparr>],
      contract_amount = 24000\<rparr>"

definition get_effective_rate_on_date :: "qdate \<Rightarrow> contract_settings \<Rightarrow> real" where
  \<comment> \<open>Python's \<open>sorted\<close> is stable, as is \<open>sort_key\<close>.\<close>
  "get_effective_rate_on_date dt cs =
     scan_rates dt (sort_key change_date (rate_history cs)) (initial_rate cs)"

section \<open>The deposit ledger\<close>

text \<open>
  The table \<open>daily_data\<close> is the list of its rows (date text, amount) in the order of
  their row ids. The column \<open>date\<close> is \<open>UNIQUE\<close>: \<open>INSERT OR REPLACE\<close> removes the row
  that has the date before it adds the new one.
\<close>

type_synonym daily_table = "(string \<times> real) list"

definition save_daily_amount :: "daily_table \<Rightarrow> qdate \<Rightarrow> real \<Rightarrow> daily_table" where
  "save_daily_amount tbl dt amount =
     (let k = toString_yyyy_MM_dd dt
      in if amount = 0 then filter (\<lambda>r. fst r \<noteq> k) tbl
         else filter (\<lambda>r. fst r \<noteq> k) tbl @ [(k, amount)])"

definition get_daily_amount :: "daily_table \<Rightarrow> qdate \<Rightarrow> real" where
  "get_daily_amount tbl dt =
     (case filter (\<lambda>r. fst r = toString_yyyy_MM_dd dt) tbl of
        [] \<Rightarrow> 0
      | result # _ \<Rightarrow> snd result)"

definition get_all_daily_data :: "daily_table \<Rightarrow> (string \<times> real) list" where
  \<comment> \<open>The dictionary \<open>{row[0]: row[1] for row in rows}\<close>, as the list of its items in
      insertion order.\<close>
  "get_all_daily_data tbl = foldl (\<lambda>d row. AList.update (fst row) (snd row) d) [] tbl"

definition apply_writes :: "daily_table \<Rightarrow> (qdate \<times> real) list \<Rightarrow> daily_table" where
  \<comment> \<open>A sequence of calls of \<open>save_daily_amount\<close>.\<close>
  "apply_writes tbl ws = foldl (\<lambda>t w. save_daily_amount t (fst w) (snd w)) tbl ws"

section \<open>The monthly plan\<close>

definition get_months_between_dates_including_start_excluding_end :: "qdate \<Rightarrow> qdate \<Rightarrow> int" where
  "get_months_between_dates_including_start_excluding_end sd ed =
     (let total_months = (year ed - year sd) * 12 + month ed - month sd
      in max 1 total_months)"

definition base_monthly_amount :: "contract_settings \<Rightarrow> real" where
  \<comment> \<open>\<open>total_amount / months_count\<close>: the quotient of Python floats, here of real numbers.\<close>
  "base_monthly_amount cs =
     contract_amount cs /
       of_int (get_months_between_dates_including_start_excluding_end (start_date cs) (end_date cs))"

record plan_state =
  month_index :: int
  cumulative_fact :: real
  monthly_plans :: "(string \<times> real) list"

definition monthly_fact_of :: "(string \<times> real) list \<Rightarrow> string \<Rightarrow> real" where
  \<comment> \<open>The inner loop: the deposits whose date text starts with the month key.\<close>
  "monthly_fact_of daily_data month_key =
     foldl (\<lambda>monthly_fact item.
              if prefix month_key (fst item) then monthly_fact + snd item else monthly_fact)
       0 daily_data"

definition adjusted_plan_of :: "real \<Rightarrow> int \<Rightarrow> real \<Rightarrow> real" where
  "adjusted_plan_of base idx cumulative =
     (let target_cumulative_plan = base * of_int idx
      in if cumulative > target_cumulative_plan
         then max 0 (base - (cumulative - target_cumulative_plan))
         else base)"

definition plan_month :: "real \<Rightarrow> (string \<times> real) list \<Rightarrow> qdate \<Rightarrow> plan_state \<Rightarrow> plan_state" where
  \<comment> \<open>The body of the loop for a month that is not the closing month.\<close>
  "plan_month base daily_data current_date st =
     (let month_key = toString_yyyy_MM current_date;
          idx = month_index st + 1;
          cumulative = cumulative_fact st + monthly_fact_of daily_data month_key
      in \<lparr>month_index = idx, cumulative_fact = cumulative,
          monthly_plans =
            AList.update month_key (adjusted_plan_of base idx cumulative) (monthly_plans st)\<rparr>)"

partial_function (option) plans_loop ::
  "real \<Rightarrow> (string \<times> real) list \<Rightarrow> qdate \<Rightarrow> qdate \<Rightarrow> plan_state \<Rightarrow> plan_state option" where
  "plans_loop base daily_data ed current_date st =
     (if current_date < ed then
        (if year current_date = year ed \<and> month current_date = month ed
         then plans_loop base daily_data ed (addMonths current_date 1) st
         else plans_loop base daily_data ed (addMonths current_date 1)
                (plan_month base daily_data current_date st))
      else Some st)"

declare plans_loop.simps [code]

definition calculate_monthly_plans ::
  "contract_settings \<Rightarrow> daily_table \<Rightarrow> (string \<times> real) list option" where
  \<comment> \<open>\<open>None\<close>: the loop over the months does not end.\<close>
  "calculate_monthly_plans cs tbl =
     (let sd = start_date cs; ed = end_date cs; total_amount = contract_amount cs
      in if total_amount = 0 then Some []
         else
           let months_count = get_months_between_dates_including_start_excluding_end sd ed
           in if months_count = 0 then Some []
              else map_option monthly_plans
                     (plans_loop (base_monthly_amount cs) (get_all_daily_data tbl) ed
                        (QDate (year sd) (month sd) 1)
                        \<lparr>month_index = 0, cumulative_fact = 0, monthly_plans = []\<rparr>))"

definition included_months :: "contract_settings \<Rightarrow> qdate list" where
  \<comment> \<open>The months from the month of the start date up to, and without, the month of the
      end date.\<close>
  "included_months cs =
     map first_of_month [month_number (start_date cs) .. month_number (end_date cs) - 1]"

definition cumulative_deposits :: "(string \<times> real) list \<Rightarrow> qdate list \<Rightarrow> nat \<Rightarrow> real" where
  \<comment> \<open>The deposits of the first \<open>k\<close> months of a list of months.\<close>
  "cumulative_deposits daily_data months k =
     sum_list (map (\<lambda>mo. monthly_fact_of daily_data (toString_yyyy_MM mo)) (take k months))"

definition plan_entries :: "real \<Rightarrow> (string \<times> real) list \<Rightarrow> qdate list \<Rightarrow> (string \<times> real) list" where
  \<comment> \<open>The plan in closed form: month \<open>k\<close> of the list (counted from 0) has the index
      \<open>k + 1\<close> and is adjusted by the deposits of the months up to and with itself.\<close>
  "plan_entries base daily_data months =
     map (\<lambda>k. (toString_yyyy_MM (months ! k),
               adjusted_plan_of base (int k + 1) (cumulative_deposits daily_data months (Suc k))))
       [0 ..< length months]"

definition flat_plan :: "contract_settings \<Rightarrow> (string \<times> real) list" where
  \<comment> \<open>The base amount for every included month.\<close>
  "flat_plan cs = map (\<lambda>mo. (toString_yyyy_MM mo, base_monthly_amount cs)) (included_months cs)"

definition year_example :: contract_settings where
  "year_example =
     \<lparr>start_date = (2024, 1, 1), end_date = (2025, 1, 1), initial_rate = 10,
      rate_history = [], contract_amount = 12000\<rparr>"

definition zero_amount_example :: contract_settings where
  "zero_amount_example =
     \<lparr>start_date = (2024, 1, 1), end_date = (2025, 1, 1), initial_rate = 10,
      rate_history = [], contract_amount = 0\<rparr>"

definition same_month_example :: contract_settings where
  "same_month_example =
     \<lparr>start_date = (2024, 1, 5), end_date = (2024, 1, 20), initial_rate = 10,
      rate_history = [], contract_amount = 500\<rparr>"

definition overpaid_table :: daily_table where
  \<comment> \<open>One deposit of 1500 in the first month.\<close>
  "overpaid_table = [(''2024-01-15'', 1500)]"

section \<open>Interest\<close>

datatype py_error = ZeroDivisionError

record sim_state =
  current_balance :: real
  interest_for_target_period :: real

definition daily_interest_of :: "contract_settings \<Rightarrow> real \<Rightarrow> qdate \<Rightarrow> py_error + real" where
  "daily_interest_of cs balance iter_date =
     (let r = get_effective_rate_on_date iter_date cs;
          days_in_year = daysInYear iter_date
      in if days_in_year = 0 then Inl ZeroDivisionError
         else Inr ((balance * r / 100) / of_int days_in_year))"

definition accrue :: "contract_settings \<Rightarrow> qdate \<Rightarrow> qdate \<Rightarrow> sim_state \<Rightarrow> py_error + sim_state" where
  \<comment> \<open>Step A of a day: interest on the balance the day begins with.\<close>
  "accrue cs target_period_start iter_date st =
     (if current_balance st > 0 then
        (case daily_interest_of cs (current_balance st) iter_date of
           Inl e \<Rightarrow> Inl e
         | Inr daily_interest \<Rightarrow>
             Inr \<lparr>current_balance = current_balance st + daily_interest,
                  interest_for_target_period =
                    (if iter_date \<ge> target_period_start
                     then interest_for_target_period st + daily_interest
                     else interest_for_target_period st)\<rparr>)
      else Inr st)"

definition add_payment :: "(string \<times> real) list \<Rightarrow> qdate \<Rightarrow> sim_state \<Rightarrow> sim_state" where
  \<comment> \<open>Step B of a day: the deposit of the day joins the balance.\<close>
  "add_payment all_payments iter_date st =
     (case map_of all_payments (toString_yyyy_MM_dd iter_date) of
        None \<Rightarrow> st
      | Some amount \<Rightarrow> st\<lparr>current_balance := current_balance st + amount\<rparr>)"

definition sim_day ::
  "contract_settings \<Rightarrow> (string \<times> real) list \<Rightarrow> qdate \<Rightarrow> qdate \<Rightarrow> sim_state \<Rightarrow> py_error + sim_state" where
  "sim_day cs all_payments target_period_start iter_date st =
     (case accrue cs target_period_start iter_date st of
        Inl e \<Rightarrow> Inl e
      | Inr st' \<Rightarrow> Inr (add_payment all_payments iter_date st'))"

partial_function (option) simulate ::
  "contract_settings \<Rightarrow> (string \<times> real) list \<Rightarrow> qdate \<Rightarrow> qdate \<Rightarrow> qdate \<Rightarrow> sim_state
     \<Rightarrow> (py_error + sim_state) option" where
  "simulate cs all_payments target_period_start simulation_end_date iter_date st =
     (if iter_date < simulation_end_date then
        (case sim_day cs all_payments target_period_start iter_date st of
           Inl e \<Rightarrow> Some (Inl e)
         | Inr st' \<Rightarrow>
             simulate cs all_payments target_period_start simulation_end_date
               (addDays iter_date 1) st')
      else Some (Inr st))"

declare simulate.simps [code]

definition accrual_date_of :: "contract_settings \<Rightarrow> int \<Rightarrow> int \<Rightarrow> qdate" where
  "accrual_date_of cs y m =
     (let contract_day = day (start_date cs);
          accrual_date = QDate y m contract_day
      in if \<not> isValid accrual_date then QDate y m (daysInMonth (QDate y m 1))
         else accrual_date)"

definition target_period_start_of :: "contract_settings \<Rightarrow> int \<Rightarrow> int \<Rightarrow> qdate" where
  "target_period_start_of cs y m =
     (let target_period_start = addMonths (accrual_date_of cs y m) (- 1)
      in if target_period_start < start_date cs then start_date cs else target_period_start)"

definition simulation_end_date_of :: "contract_settings \<Rightarrow> qdate \<Rightarrow> int \<Rightarrow> int \<Rightarrow> qdate" where
  "simulation_end_date_of cs today y m = min (accrual_date_of cs y m) today"

definition calculate_monthly_interest ::
  "contract_settings \<Rightarrow> daily_table \<Rightarrow> qdate \<Rightarrow> int \<Rightarrow> int \<Rightarrow> (py_error + real) option" where
  \<comment> \<open>\<open>today\<close> is \<open>QDate.currentDate()\<close>. \<open>None\<close>: the simulation does not end;
      \<open>Some (Inl e)\<close>: it raises \<open>e\<close>.\<close>
  "calculate_monthly_interest cs tbl today y m =
     (if accrual_date_of cs y m \<le> start_date cs then Some (Inr 0)
      else if target_period_start_of cs y m \<ge> simulation_end_date_of cs today y m
      then Some (Inr 0)
      else map_option (map_sum id interest_for_target_period)
             (simulate cs (get_all_daily_data tbl) (target_period_start_of cs y m)
                (simulation_end_date_of cs today y m) (start_date cs)
                \<lparr>current_balance = 0, interest_for_target_period = 0\<rparr>))"

partial_function (option) total_loop ::
  "contract_settings \<Rightarrow> daily_table \<Rightarrow> qdate \<Rightarrow> qdate \<Rightarrow> qdate \<Rightarrow> real
     \<Rightarrow> (py_error + real) option" where
  "total_loop cs tbl today up_to_date current_check_date total_interest =
     (if current_check_date \<le> addMonths up_to_date 1 then
        (if QDate (year current_check_date) (month current_check_date) 1 > up_to_date
            \<and> current_check_date > up_to_date
         then Some (Inr total_interest)
         else
           (case calculate_monthly_interest cs tbl today
                   (year current_check_date) (month current_check_date) of
              None \<Rightarrow> None
            | Some (Inl e) \<Rightarrow> Some (Inl e)
            | Some (Inr interest) \<Rightarrow>
                total_loop cs tbl today up_to_date (addMonths current_check_date 1)
                  (total_interest + interest)))
      else Some (Inr total_interest))"

declare total_loop.simps [code]

definition get_total_accumulated_interest ::
  "contract_settings \<Rightarrow> daily_table \<Rightarrow> qdate \<Rightarrow> qdate \<Rightarrow> (py_error + real) option" where
  "get_total_accumulated_interest cs tbl today up_to_date =
     (if up_to_date \<le> start_date cs then Some (Inr 0)
      else total_loop cs tbl today up_to_date (addMonths (start_date cs) 1) 0)"

definition days_left :: "qdate \<Rightarrow> qdate \<Rightarrow> nat" where
  \<comment> \<open>A bound on the days the simulation still has to visit before the date \<open>e\<close>.\<close>
  "days_left e dt = nat (((year e - year dt) * 12 + (12 - month dt)) * 31 + (31 - day dt))"

definition month_end_example :: contract_settings where
  "month_end_example =
     \<lparr>start_date = (2024, 1, 31), end_date = (2025, 1, 31), initial_rate = 10,
      rate_history = [], contract_amount = 12000\<rparr>"

definition first_day_deposit :: "contract_settings \<Rightarrow> (string \<times> real) list" where
  \<comment> \<open>The ledger with a single deposit of 1000 on the start date.\<close>
  "first_day_deposit cs = [(toString_yyyy_MM_dd (start_date cs), 1000)]"

definition monthly_results ::
  "contract_settings \<Rightarrow> daily_table \<Rightarrow> qdate \<Rightarrow> qdate \<Rightarrow> (py_error + real) option list" where
  \<comment> \<open>The monthly interest of every month after the month of the start date, up to and
      with the month of \<open>up_to_date\<close>.\<close>
  "monthly_results cs tbl today up_to_date =
     map (\<lambda>i. calculate_monthly_interest cs tbl today
                (year (first_of_month i)) (month (first_of_month i)))
       [month_number (start_date cs) + 1 .. month_number up_to_date]"



fun sum_results :: "real \<Rightarrow> (py_error + real) option list \<Rightarrow> (py_error + real) option" where
  \<comment> \<open>Adding up results one after the other; the first that fails is the outcome.\<close>
  "sum_results acc [] = Some (Inr acc)"
| "sum_results acc (r # rs) =
     (case r of
        None \<Rightarrow> None
      | Some (Inl e) \<Rightarrow> Some (Inl e)
      | Some (Inr v) \<Rightarrow> sum_results (acc + v) rs)"

section \<open>Properties of the month count\<close>

text \<open>
  Claim C7. The month count is \<open>max 1 ((end.year - start.year) * 12 + end.month - start.month)\<close>,
  so it is at least 1 and never 0: the branch of \<open>calculate_monthly_plans\<close> for a count
  of 0 is never taken, and the division that gives the base amount has a divisor other
  than 0 (the base amount times the count is the contract amount again).
\<close>

theorem months_count_at_least_one:
  "get_months_between_dates_including_start_excluding_end sd ed
     = max 1 ((year ed - year sd) * 12 + month ed - month sd)
   \<and> 1 \<le> get_months_between_dates_including_start_excluding_end sd ed
   \<and> get_months_between_dates_including_start_excluding_end sd ed \<noteq> 0
   \<and> base_monthly_amount cs
         * of_int (get_months_between_dates_including_start_excluding_end (start_date cs) (end_date cs))
       = contract_amount cs"
  by (simp add: get_months_between_dates_including_start_excluding_end_def
      base_monthly_amount_def Let_def)

section \<open>Properties of the effective rate\<close>

lemma scan_rates_sorted:
  "sorted (map change_date xs) \<Longrightarrow>
   scan_rates dt xs e =
     (if filter (\<lambda>rc. change_date rc \<le> dt) xs = [] then e
      else rate (last (filter (\<lambda>rc. change_date rc \<le> dt) xs)))"
proof (induction xs arbitrary: e)
  case Nil
  then show ?case by simp
next
  case (Cons x xs)
  show ?case
  proof (cases "change_date x \<le> dt")
    case True
    with Cons show ?thesis by simp
  next
    case False
    have "\<forall>y\<in>set xs. change_date x \<le> change_date y"
      using Cons.prems by simp
    with False have "\<forall>y\<in>set xs. \<not> change_date y \<le> dt"
      by (meson order_trans)
    then have "filter (\<lambda>rc. change_date rc \<le> dt) xs = []"
      by (simp add: filter_empty_conv)
    with False show ?thesis by simp
  qed
qed

lemma effective_rate_last:
  "get_effective_rate_on_date dt cs =
     (if qualifying dt cs = [] then initial_rate cs
      else rate (last (sort_key change_date (qualifying dt cs))))"
proof -
  have "filter (\<lambda>rc. change_date rc \<le> dt) (sort_key change_date (rate_history cs))
        = sort_key change_date (qualifying dt cs)"
    by (simp add: qualifying_def filter_sort)
  moreover have "(sort_key change_date (qualifying dt cs) = []) = (qualifying dt cs = [])"
    by (metis length_sort length_0_conv)
  ultimately show ?thesis
    by (simp add: get_effective_rate_on_date_def scan_rates_sorted)
qed

lemma last_sorted_max:
  assumes "xs \<noteq> []" "sorted (map f xs)"
  shows "\<forall>y\<in>set xs. f y \<le> f (last xs)"
  using assms
proof (induction xs)
  case Nil
  then show ?case by simp
next
  case (Cons x xs)
  then show ?case by (cases xs) auto
qed

lemma last_sort_key:
  assumes "xs \<noteq> []"
  shows "last (sort_key f xs) \<in> set xs \<and> (\<forall>y\<in>set xs. f y \<le> f (last (sort_key f xs)))"
proof -
  have ne: "sort_key f xs \<noteq> []" using assms by (metis length_sort length_0_conv)
  have "last (sort_key f xs) \<in> set (sort_key f xs)" using ne by (rule last_in_set)
  moreover have "\<forall>y\<in>set (sort_key f xs). f y \<le> f (last (sort_key f xs))"
    using last_sorted_max [OF ne, of f] by simp
  ultimately show ?thesis by simp
qed

lemma last_filter_sat:
  "xs \<noteq> [] \<Longrightarrow> P (last xs) \<Longrightarrow> last (filter P xs) = last xs"
proof (induction xs)
  case Nil
  then show ?case by simp
next
  case (Cons a xs)
  show ?case
  proof (cases "xs = []")
    case True
    with Cons.prems show ?thesis by simp
  next
    case False
    with Cons.prems have pl: "P (last xs)" by simp
    then have "filter P xs \<noteq> []"
      using False by (metis filter_empty_conv last_in_set)
    with Cons.IH [OF False pl] False show ?thesis by simp
  qed
qed

lemma last_sort_key_stable:
  assumes "xs \<noteq> []"
  shows "last (sort_key f xs) = last (filter (\<lambda>y. f y = f (last (sort_key f xs))) xs)"
proof -
  let ?k = "f (last (sort_key f xs))"
  have ne: "sort_key f xs \<noteq> []" using assms by (metis length_sort length_0_conv)
  have "last (filter (\<lambda>y. f y = ?k) (sort_key f xs)) = last (sort_key f xs)"
    using ne by (simp add: last_filter_sat)
  then show ?thesis by (simp add: sort_key_stable)
qed

lemma rate_example_values:
  "get_effective_rate_on_date (2022, 12, 31) rate_example = 3"
  "get_effective_rate_on_date (2023, 3, 1) rate_example = 5"
  "get_effective_rate_on_date (2023, 6, 1) rate_example = 7"
  "get_effective_rate_on_date (2023, 12, 31) rate_example = 7"
  by code_simp+

text \<open>
  Claim C3. The effective rate on a date is the initial rate when no history entry is dated
  at or before it; otherwise it is the rate of a history entry dated at or before it that
  no other such entry is dated after. The history need not be sorted. An empty history
  gives the initial rate on every date, and the history 01.01.2023 at 5, 01.06.2023 at 7
  with initial rate 3 gives 3, 5, 7 and 7 on 2022-12-31, 2023-03-01, 2023-06-01 and
  2023-12-31.
\<close>

theorem effective_rate_latest_entry:
  "(qualifying dt cs = [] \<longrightarrow> get_effective_rate_on_date dt cs = initial_rate cs)
   \<and> (qualifying dt cs \<noteq> [] \<longrightarrow>
        (\<exists>rc\<in>set (rate_history cs). change_date rc \<le> dt
           \<and> (\<forall>rc'\<in>set (rate_history cs). change_date rc' \<le> dt \<longrightarrow> change_date rc' \<le> change_date rc)
           \<and> get_effective_rate_on_date dt cs = rate rc))
   \<and> get_effective_rate_on_date dt (cs\<lparr>rate_history := []\<rparr>) = initial_rate cs
   \<and> get_effective_rate_on_date (2022, 12, 31) rate_example = 3
   \<and> get_effective_rate_on_date (2023, 3, 1) rate_example = 5
   \<and> get_effective_rate_on_date (2023, 6, 1) rate_example = 7
   \<and> get_effective_rate_on_date (2023, 12, 31) rate_example = 7"
proof -
  have none: "qualifying dt cs = [] \<longrightarrow> get_effective_rate_on_date dt cs = initial_rate cs"
    by (simp add: effective_rate_last)
  have some: "qualifying dt cs \<noteq> [] \<longrightarrow>
        (\<exists>rc\<in>set (rate_history cs). change_date rc \<le> dt
           \<and> (\<forall>rc'\<in>set (rate_history cs). change_date rc' \<le> dt \<longrightarrow> change_date rc' \<le> change_date rc)
           \<and> get_effective_rate_on_date dt cs = rate rc)"
  proof
    assume ne: "qualifying dt cs \<noteq> []"
    let ?w = "last (sort_key change_date (qualifying dt cs))"
    from last_sort_key [OF ne, of change_date]
    have mem: "?w \<in> set (qualifying dt cs)"
      and top: "\<forall>y\<in>set (qualifying dt cs). change_date y \<le> change_date ?w"
      by simp_all
    from mem have "?w \<in> set (rate_history cs)" "change_date ?w \<le> dt"
      by (simp_all add: qualifying_def)
    moreover from top
    have "\<forall>rc'\<in>set (rate_history cs). change_date rc' \<le> dt \<longrightarrow> change_date rc' \<le> change_date ?w"
      by (simp add: qualifying_def)
    moreover have "get_effective_rate_on_date dt cs = rate ?w"
      using ne by (simp add: effective_rate_last)
    ultimately show "\<exists>rc\<in>set (rate_history cs). change_date rc \<le> dt
           \<and> (\<forall>rc'\<in>set (rate_history cs). change_date rc' \<le> dt \<longrightarrow> change_date rc' \<le> change_date rc)
           \<and> get_effective_rate_on_date dt cs = rate rc"
      by blast
  qed
  have empty: "get_effective_rate_on_date dt (cs\<lparr>rate_history := []\<rparr>) = initial_rate cs"
    by (simp add: get_effective_rate_on_date_def)
  from none some empty rate_example_values show ?thesis by blast
qed

theorem effective_rate_latest_entry_witness:
  "qualifying (2023, 3, 1) rate_example \<noteq> []
   \<and> (\<exists>rc\<in>set (rate_history rate_example). change_date rc \<le> (2023, 3, 1)
          \<and> get_effective_rate_on_date (2023, 3, 1) rate_example = rate rc)
   \<and> qualifying (2022, 3, 1) rate_example = []
   \<and> get_effective_rate_on_date (2022, 3, 1) rate_example = initial_rate rate_example"
proof -
  have q1: "qualifying (2023, 3, 1) rate_example \<noteq> []" by code_simp
  have q2: "qualifying (2022, 3, 1) rate_example = []" by code_simp
  from q1 effective_rate_latest_entry [of "(2023, 3, 1)" rate_example]
  have "\<exists>rc\<in>set (rate_history rate_example). change_date rc \<le> (2023, 3, 1)
          \<and> get_effective_rate_on_date (2023, 3, 1) rate_example = rate rc"
    by blast
  moreover from q2 effective_rate_latest_entry [of "(2022, 3, 1)" rate_example]
  have "get_effective_rate_on_date (2022, 3, 1) rate_example = initial_rate rate_example"
    by blast
  ultimately show ?thesis using q1 q2 by blast
qed

text \<open>
  Claim C10. When several history entries carry the latest date at or before the date asked
  for, the rate is that of the one listed last among them: the sort is stable and the scan
  lets each later entry override. The result is a function of the date and the settings
  alone, so equal arguments give equal rates.
\<close>

theorem effective_rate_same_date_last_listed:
  assumes "rc \<in> set (rate_history cs)" and "change_date rc \<le> dt"
    and "\<forall>rc'\<in>set (rate_history cs). change_date rc' \<le> dt \<longrightarrow> change_date rc' \<le> change_date rc"
  shows "get_effective_rate_on_date dt cs =
           rate (last (filter (\<lambda>x. change_date x = change_date rc) (rate_history cs)))
    \<and> (dt' = dt \<and> cs' = cs \<longrightarrow>
         get_effective_rate_on_date dt' cs' = get_effective_rate_on_date dt cs)"
proof -
  let ?Q = "qualifying dt cs"
  let ?w = "last (sort_key change_date ?Q)"
  from assms have rcq: "rc \<in> set ?Q" by (simp add: qualifying_def)
  then have ne: "?Q \<noteq> []" by auto
  from last_sort_key [OF ne, of change_date]
  have mem: "?w \<in> set ?Q" and top: "\<forall>y\<in>set ?Q. change_date y \<le> change_date ?w"
    by simp_all
  from mem assms(3) have "change_date ?w \<le> change_date rc" by (simp add: qualifying_def)
  moreover from top rcq have "change_date rc \<le> change_date ?w" by blast
  ultimately have eq: "change_date ?w = change_date rc" by simp
  have "filter (\<lambda>x. change_date x = change_date rc) ?Q
        = filter (\<lambda>x. change_date x = change_date rc) (rate_history cs)"
    unfolding qualifying_def filter_filter
    by (rule filter_cong) (use assms(2) in auto)
  with last_sort_key_stable [OF ne, of change_date] eq
  have "?w = last (filter (\<lambda>x. change_date x = change_date rc) (rate_history cs))" by simp
  moreover have "get_effective_rate_on_date dt cs = rate ?w"
    using ne by (simp add: effective_rate_last)
  ultimately have "get_effective_rate_on_date dt cs =
           rate (last (filter (\<lambda>x. change_date x = change_date rc) (rate_history cs)))"
    by simp
  then show ?thesis by simp
qed

theorem effective_rate_same_date_last_listed_witness:
  "get_effective_rate_on_date (2023, 7, 1) same_date_example = 9"
proof -
  have a: "\<lparr>date = ''01.06.2023'', rate = 7\<rparr> \<in> set (rate_history same_date_example)"
    by (simp add: same_date_example_def)
  have b: "change_date \<lparr>date = ''01.06.2023'', rate = 7\<rparr> \<le> (2023, 7, 1)" by code_simp
  have c: "\<forall>rc'\<in>set (rate_history same_date_example). change_date rc' \<le> (2023, 7, 1)
             \<longrightarrow> change_date rc' \<le> change_date \<lparr>date = ''01.06.2023'', rate = 7\<rparr>"
    by code_simp
  have d: "rate (last (filter (\<lambda>x. change_date x = change_date \<lparr>date = ''01.06.2023'', rate = 7\<rparr>)
             (rate_history same_date_example))) = 9"
    by code_simp
  from effective_rate_same_date_last_listed [OF a b c] d show ?thesis by simp
qed

section \<open>Properties of the deposit ledger\<close>

lemma save_daily_amount_keys:
  "fst ` set (save_daily_amount tbl dt a) =
     (if a = 0 then fst ` set tbl - {toString_yyyy_MM_dd dt}
      else insert (toString_yyyy_MM_dd dt) (fst ` set tbl))"
  by (auto simp: save_daily_amount_def Let_def image_iff)

lemma save_daily_amount_distinct:
  "distinct (map fst tbl) \<Longrightarrow> distinct (map fst (save_daily_amount tbl dt a))"
  by (auto simp: save_daily_amount_def Let_def distinct_map_filter)

lemma save_daily_amount_nonzero:
  "0 \<notin> snd ` set tbl \<Longrightarrow> 0 \<notin> snd ` set (save_daily_amount tbl dt a)"
  by (auto simp: save_daily_amount_def Let_def image_iff)

lemma apply_writes_invariant:
  "distinct (map fst tbl) \<Longrightarrow> 0 \<notin> snd ` set tbl \<Longrightarrow>
   distinct (map fst (apply_writes tbl ws)) \<and> 0 \<notin> snd ` set (apply_writes tbl ws)"
proof (induction ws arbitrary: tbl)
  case Nil
  then show ?case by (simp add: apply_writes_def)
next
  case (Cons w ws)
  have "apply_writes tbl (w # ws) = apply_writes (save_daily_amount tbl (fst w) (snd w)) ws"
    by (simp add: apply_writes_def)
  with Cons.IH [OF save_daily_amount_distinct [OF Cons.prems(1)]
      save_daily_amount_nonzero [OF Cons.prems(2)]]
  show ?case by simp
qed

lemma get_daily_amount_absent:
  "k \<notin> fst ` set tbl \<Longrightarrow> filter (\<lambda>r. fst r = k) tbl = []"
  by (auto simp: filter_empty_conv)

lemma get_daily_amount_zero_iff:
  assumes "0 \<notin> snd ` set tbl"
  shows "get_daily_amount tbl dt = 0 \<longleftrightarrow> toString_yyyy_MM_dd dt \<notin> fst ` set tbl"
proof (cases "filter (\<lambda>r. fst r = toString_yyyy_MM_dd dt) tbl")
  case Nil
  then have "toString_yyyy_MM_dd dt \<notin> fst ` set tbl"
    by (auto simp: filter_empty_conv)
  with Nil show ?thesis by (simp add: get_daily_amount_def)
next
  case (Cons r rs)
  then have "r \<in> set (filter (\<lambda>r. fst r = toString_yyyy_MM_dd dt) tbl)" by simp
  then have mem: "r \<in> set tbl" and key: "fst r = toString_yyyy_MM_dd dt" by simp_all
  from mem assms have "snd r \<noteq> 0" by (metis image_eqI)
  moreover from mem key have "toString_yyyy_MM_dd dt \<in> fst ` set tbl" by (metis image_eqI)
  ultimately show ?thesis using Cons by (simp add: get_daily_amount_def)
qed

lemma get_after_save:
  "a \<noteq> 0 \<Longrightarrow> get_daily_amount (save_daily_amount tbl dt a) dt = a"
proof -
  assume a: "a \<noteq> 0"
  have "filter (\<lambda>r. fst r = toString_yyyy_MM_dd dt)
          (filter (\<lambda>r. fst r \<noteq> toString_yyyy_MM_dd dt) tbl) = []"
    by (auto simp: filter_empty_conv)
  with a show ?thesis
    by (simp add: get_daily_amount_def save_daily_amount_def Let_def)
qed

text \<open>
  Claim C9. After any sequence of calls of \<open>save_daily_amount\<close> on the empty table, no
  two rows have the same date and no row holds the amount 0; so \<open>get_daily_amount\<close> is 0
  for a date exactly when the table has no row for it. Saving 0 removes the row of the
  date, and saving another amount makes it the amount read back for the date.
\<close>

theorem ledger_never_stores_zero:
  "distinct (map fst (apply_writes [] ws))
   \<and> 0 \<notin> snd ` set (apply_writes [] ws)
   \<and> (get_daily_amount (apply_writes [] ws) dt = 0
        \<longleftrightarrow> toString_yyyy_MM_dd dt \<notin> fst ` set (apply_writes [] ws))
   \<and> toString_yyyy_MM_dd dt \<notin> fst ` set (save_daily_amount (apply_writes [] ws) dt 0)
   \<and> (a \<noteq> 0 \<longrightarrow> get_daily_amount (save_daily_amount (apply_writes [] ws) dt a) dt = a)
   \<and> apply_writes [] (ws @ [(dt, a)]) = save_daily_amount (apply_writes [] ws) dt a"
proof -
  have inv: "distinct (map fst (apply_writes [] ws)) \<and> 0 \<notin> snd ` set (apply_writes [] ws)"
    by (rule apply_writes_invariant) simp_all
  moreover have "get_daily_amount (apply_writes [] ws) dt = 0
        \<longleftrightarrow> toString_yyyy_MM_dd dt \<notin> fst ` set (apply_writes [] ws)"
    using inv by (simp add: get_daily_amount_zero_iff)
  moreover have "toString_yyyy_MM_dd dt \<notin> fst ` set (save_daily_amount (apply_writes [] ws) dt 0)"
    by (simp add: save_daily_amount_keys)
  moreover have "a \<noteq> 0 \<longrightarrow> get_daily_amount (save_daily_amount (apply_writes [] ws) dt a) dt = a"
    by (simp add: get_after_save)
  moreover have "apply_writes [] (ws @ [(dt, a)]) = save_daily_amount (apply_writes [] ws) dt a"
    by (simp add: apply_writes_def)
  ultimately show ?thesis by blast
qed

theorem ledger_never_stores_zero_witness:
  "apply_writes [] [((2024, 1, 15), 1500), ((2024, 2, 1), 200), ((2024, 1, 15), 0)]
     = [(''2024-02-01'', 200)]
   \<and> get_daily_amount (apply_writes [] [((2024, 1, 15), 1500), ((2024, 2, 1), 200), ((2024, 1, 15), 0)])
       (2024, 1, 15) = 0
   \<and> get_daily_amount
       (save_daily_amount
          (apply_writes [] [((2024, 1, 15), 1500), ((2024, 2, 1), 200), ((2024, 1, 15), 0)])
          (2024, 1, 15) 70) (2024, 1, 15) = 70"
proof -
  have t: "apply_writes [] [((2024, 1, 15), 1500), ((2024, 2, 1), 200), ((2024, 1, 15), 0)]
     = [(''2024-02-01'', 200)]"
    by code_simp
  have k: "toString_yyyy_MM_dd (2024, 1, 15) = ''2024-01-15''" by code_simp
  from ledger_never_stores_zero
    [of "[((2024, 1, 15), 1500), ((2024, 2, 1), 200), ((2024, 1, 15), 0)]" "(2024, 1, 15)" 70]
  show ?thesis unfolding t k by simp
qed

section \<open>Calendar facts\<close>

lemma days_in_month_bounds:
  "1 \<le> m \<Longrightarrow> m \<le> 12 \<Longrightarrow> 28 \<le> days_in_month y m \<and> days_in_month y m \<le> 31"
  by (simp add: days_in_month_def)

lemma days_in_month_le: "days_in_month y m \<le> 31"
  by (simp add: days_in_month_def)

lemma isValid_fields:
  "isValid (y, m, d) \<longleftrightarrow> y \<noteq> 0 \<and> 1 \<le> m \<and> m \<le> 12 \<and> 1 \<le> d \<and> d \<le> days_in_month y m"
  by (auto simp: isValid_def days_in_month_def)

lemma ce_date_fields:
  "ce_date (y, m, d) \<longleftrightarrow> 1 \<le> y \<and> 1 \<le> m \<and> m \<le> 12 \<and> 1 \<le> d \<and> d \<le> days_in_month y m"
  by (auto simp: ce_date_def isValid_fields)

lemma qdate_less:
  "((y, m, d) < ((y', m', d')::qdate)) \<longleftrightarrow> y < y' \<or> (y = y' \<and> (m < m' \<or> (m = m' \<and> d < d')))"
  by (auto simp: less_prod_def)

lemma qdate_le:
  "((y, m, d) \<le> ((y', m', d')::qdate)) \<longleftrightarrow> y < y' \<or> (y = y' \<and> (m < m' \<or> (m = m' \<and> d \<le> d')))"
  by (auto simp: less_eq_prod_def)

lemma first_of_month_ce: "12 \<le> i \<Longrightarrow> ce_date (first_of_month i)"
proof -
  assume "12 \<le> i"
  then have "1 \<le> i div 12" by simp
  moreover have "1 \<le> i mod 12 + 1" "i mod 12 + 1 \<le> 12"
    by simp_all
  ultimately show ?thesis
    using days_in_month_bounds [of "i mod 12 + 1" "i div 12"]
    by (simp add: first_of_month_def ce_date_fields)
qed

lemma month_number_first_of_month: "month_number (first_of_month i) = i"
  by (simp add: month_number_def first_of_month_def)

lemma first_of_month_number:
  "ce_date dt \<Longrightarrow> first_of_month (month_number dt) = (year dt, month dt, 1)"
proof (cases dt)
  case (fields y m d)
  assume "ce_date dt"
  with fields have m: "1 \<le> m" "m \<le> 12" by (simp_all add: ce_date_fields)
  then have "(y * 12 + (m - 1)) div 12 = y" "(y * 12 + (m - 1)) mod 12 = m - 1"
    by simp_all
  with fields show ?thesis by (simp add: first_of_month_def month_number_def)
qed

lemma month_number_ce: "ce_date dt \<Longrightarrow> 12 \<le> month_number dt"
  by (cases dt) (simp add: ce_date_fields month_number_def)

lemma QDate_first_of_month:
  "ce_date dt \<Longrightarrow> QDate (year dt) (month dt) 1 = first_of_month (month_number dt)"
proof -
  assume ce: "ce_date dt"
  from first_of_month_ce [OF month_number_ce [OF ce]] first_of_month_number [OF ce]
  have "ce_date (year dt, month dt, 1)" by simp
  then have "isValid (year dt, month dt, 1)" by (simp add: ce_date_def)
  with first_of_month_number [OF ce] show ?thesis by (simp add: QDate_def)
qed

lemma addMonths_ce:
  assumes "ce_date dt"
  shows "ce_date (addMonths dt 1)"
    and "month_number (addMonths dt 1) = month_number dt + 1"
    and "day (addMonths dt 1) \<le> day dt"
proof -
  obtain y m d where dt: "dt = (y, m, d)" by (cases dt)
  with assms have f: "1 \<le> y" "1 \<le> m" "m \<le> 12" "1 \<le> d" "d \<le> days_in_month y m"
    by (simp_all add: ce_date_fields)
  have v: "isValid dt" using assms by (simp add: ce_date_def)
  show "ce_date (addMonths dt 1)"
  proof (cases "m = 12")
    case True
    with f v dt show ?thesis
      by (simp add: addMonths_def Let_def ce_date_fields days_in_month_def)
  next
    case False
    with f have m: "m div 12 = 0" "m mod 12 = m" by simp_all
    from f False have "28 \<le> days_in_month y (m + 1)"
      using days_in_month_bounds [of "m + 1" y] by simp
    with f v dt m False show ?thesis
      by (simp add: addMonths_def Let_def ce_date_fields)
  qed
  show "month_number (addMonths dt 1) = month_number dt + 1"
  proof (cases "m = 12")
    case True
    with f v dt show ?thesis
      by (simp add: addMonths_def Let_def month_number_def)
  next
    case False
    with f have m: "m div 12 = 0" "m mod 12 = m" by simp_all
    with f v dt show ?thesis
      by (simp add: addMonths_def Let_def month_number_def)
  qed
  show "day (addMonths dt 1) \<le> day dt"
    using v dt by (simp add: addMonths_def Let_def)
qed

lemma addMonths_first_of_month:
  assumes "12 \<le> i"
  shows "addMonths (first_of_month i) 1 = first_of_month (i + 1)"
proof -
  let ?a = "addMonths (first_of_month i) 1"
  have ce: "ce_date (first_of_month i)" using assms by (rule first_of_month_ce)
  from addMonths_ce(1) [OF ce] have cea: "ce_date ?a" .
  from addMonths_ce(2) [OF ce] have mn: "month_number ?a = i + 1"
    by (simp add: month_number_first_of_month)
  from addMonths_ce(3) [OF ce] have dle: "day ?a \<le> 1"
    by (simp add: first_of_month_def)
  obtain y m d where a: "?a = (y, m, d)" by (cases ?a)
  with cea dle have "d = 1" by (simp add: ce_date_fields)
  with first_of_month_number [OF cea] mn a show ?thesis by simp
qed

lemma first_of_month_less:
  assumes "ce_date ed"
  shows "first_of_month i < ed \<longleftrightarrow>
           i < month_number ed \<or> (i = month_number ed \<and> 1 < day ed)"
proof -
  obtain y m d where ed: "ed = (y, m, d)" by (cases ed)
  with assms have f: "1 \<le> m" "m \<le> 12" by (simp_all add: ce_date_fields)
  have i: "i = (i div 12) * 12 + i mod 12" by simp
  have r: "0 \<le> i mod 12" "i mod 12 < 12" by simp_all
  show ?thesis
    unfolding ed first_of_month_def qdate_less month_number_def
    using f r i by (simp only: year.simps month.simps day.simps) linarith
qed

lemma first_of_month_same:
  assumes "ce_date ed"
  shows "year (first_of_month i) = year ed \<and> month (first_of_month i) = month ed
           \<longleftrightarrow> i = month_number ed"
proof -
  obtain y m d where ed: "ed = (y, m, d)" by (cases ed)
  with assms have f: "1 \<le> m" "m \<le> 12" by (simp_all add: ce_date_fields)
  have "(y * 12 + (m - 1)) div 12 = y" "(y * 12 + (m - 1)) mod 12 = m - 1"
    using f by simp_all
  then show ?thesis
    unfolding ed first_of_month_def month_number_def by auto
qed

section \<open>Month keys are distinct\<close>

lemma digit_below_ten:
  "k < 10 \<Longrightarrow> ''0123456789'' ! k \<in> set ''0123456789'' \<and> digit_val (''0123456789'' ! k) = k"
proof -
  assume "k < 10"
  then have "k \<in> {0, 1, 2, 3, 4, 5, 6, 7, 8, 9}" by auto
  then show ?thesis by (auto simp: digit_val_def)
qed

lemma digit_cases:
  "digit n \<in> set ''0123456789'' \<and> digit_val (digit n) = n mod 10"
  unfolding digit_def by (rule digit_below_ten) simp

lemma num_of_snoc: "num_of (s @ [c]) = 10 * num_of s + digit_val c"
  by (simp add: num_of_def)

lemma num_of_digits: "num_of (digits n) = n"
proof (induction n rule: digits.induct)
  case (1 n)
  show ?case
  proof (cases "n < 10")
    case True
    then have "digits n = [digit n]" by (simp add: digits.simps [of n])
    with True show ?thesis
      using digit_cases [of n] by (simp add: num_of_def)
  next
    case False
    then have d: "digits n = digits (n div 10) @ [digit n]" by (simp add: digits.simps [of n])
    from False "1.IH" have "num_of (digits (n div 10)) = n div 10" by simp
    then show ?thesis
      unfolding d num_of_snoc using digit_cases [of n] by simp
  qed
qed

lemma digits_are_digits: "set (digits n) \<subseteq> set ''0123456789''"
proof (induction n rule: digits.induct)
  case (1 n)
  show ?case
  proof (cases "n < 10")
    case True
    then have "digits n = [digit n]" by (simp add: digits.simps [of n])
    then show ?thesis using digit_cases [of n] by simp
  next
    case False
    then have d: "digits n = digits (n div 10) @ [digit n]" by (simp add: digits.simps [of n])
    from False "1.IH" have "set (digits (n div 10)) \<subseteq> set ''0123456789''" by simp
    then show ?thesis
      unfolding d using digit_cases [of n] by simp
  qed
qed

lemma digit_val_zero: "digit_val (CHR ''0'') = 0"
  by (simp add: digit_val_def)

lemma num_of_zeros: "num_of (replicate k (CHR ''0'') @ s) = num_of s"
  by (induction k) (simp_all add: num_of_def digit_val_zero)

lemma num_of_pad: "num_of (pad w (digits n)) = n"
  by (simp add: pad_def num_of_zeros num_of_digits)

lemma pad_no_dash: "CHR ''-'' \<notin> set (pad w (digits n))"
  using digits_are_digits [of n] by (auto simp: pad_def)

lemma num_of_plus: "num_of (CHR ''+'' # s) = num_of s"
  by (simp add: num_of_def digit_val_def)

lemma fmt_year_text:
  assumes "0 \<le> y"
  shows "CHR ''-'' \<notin> set (fmt_year y)" and "num_of (fmt_year y) = nat y"
proof -
  show "CHR ''-'' \<notin> set (fmt_year y)"
    using assms pad_no_dash [of 4 "nat y"] digits_are_digits [of "nat y"]
    by (auto simp: fmt_year_def)
  show "num_of (fmt_year y) = nat y"
    using assms by (simp add: fmt_year_def num_of_plus num_of_pad num_of_digits)
qed

lemma fmt_num_text:
  assumes "0 \<le> i"
  shows "CHR ''-'' \<notin> set (fmt_num w i)" and "num_of (fmt_num w i) = nat i"
  using assms pad_no_dash [of w "nat i"] by (simp_all add: fmt_num_def num_of_pad)

lemma takeWhile_first:
  "x \<notin> set xs \<Longrightarrow> takeWhile (\<lambda>c. c \<noteq> x) (xs @ x # r) = xs"
  by (induction xs) auto

lemma split_at_first:
  assumes "x \<notin> set xs" and "x \<notin> set xs'" and "xs @ x # r = xs' @ x # r'"
  shows "xs = xs' \<and> r = r'"
proof -
  have "takeWhile (\<lambda>c. c \<noteq> x) (xs @ x # r) = xs"
    using assms(1) by (rule takeWhile_first)
  moreover have "takeWhile (\<lambda>c. c \<noteq> x) (xs' @ x # r') = xs'"
    using assms(2) by (rule takeWhile_first)
  ultimately have "xs = xs'" using assms(3) by simp
  with assms(3) show ?thesis by simp
qed

lemma year_month_text_inj:
  assumes "0 \<le> a" "0 \<le> a'" "0 \<le> b" "0 \<le> b'"
    and "fmt_year a @ ''-'' @ fmt_num v b = fmt_year a' @ ''-'' @ fmt_num v b'"
  shows "a = a' \<and> b = b'"
proof -
  from assms(5) have eq: "fmt_year a @ CHR ''-'' # fmt_num v b = fmt_year a' @ CHR ''-'' # fmt_num v b'"
    by simp
  have "fmt_year a = fmt_year a' \<and> fmt_num v b = fmt_num v b'"
    by (rule split_at_first [OF fmt_year_text(1) [OF assms(1)] fmt_year_text(1) [OF assms(2)] eq])
  then have "num_of (fmt_year a) = num_of (fmt_year a')"
    and "num_of (fmt_num v b) = num_of (fmt_num v b')"
    by simp_all
  then have "nat a = nat a'" "nat b = nat b'"
    using assms(1-4) by (simp_all add: fmt_year_text(2) fmt_num_text(2))
  with assms(1-4) show ?thesis by linarith
qed

lemma toString_first_of_month:
  "12 \<le> i \<Longrightarrow>
   toString_yyyy_MM (first_of_month i) = fmt_year (i div 12) @ ''-'' @ fmt_num 2 (i mod 12 + 1)"
  using first_of_month_ce [of i]
  by (simp add: toString_yyyy_MM_def ce_date_def first_of_month_def)

lemma month_key_inj:
  assumes "12 \<le> i" "12 \<le> j"
    and "toString_yyyy_MM (first_of_month i) = toString_yyyy_MM (first_of_month j)"
  shows "i = j"
proof -
  have "0 \<le> i div 12" "0 \<le> j div 12" using assms by simp_all
  moreover have "0 \<le> i mod 12 + 1" "0 \<le> j mod 12 + 1" by simp_all
  moreover have "fmt_year (i div 12) @ ''-'' @ fmt_num 2 (i mod 12 + 1)
      = fmt_year (j div 12) @ ''-'' @ fmt_num 2 (j mod 12 + 1)"
    using assms by (simp add: toString_first_of_month)
  ultimately have "i div 12 = j div 12 \<and> i mod 12 + 1 = j mod 12 + 1"
    by (rule year_month_text_inj)
  then show ?thesis by (metis add_right_cancel div_mult_mod_eq)
qed


section \<open>The plan loop in closed form\<close>

lemma plans_loop_past_end:
  assumes "ce_date ed" "12 \<le> i" "month_number ed \<le> i"
  shows "plans_loop base dd ed (first_of_month i) st = Some st"
proof (cases "first_of_month i < ed")
  case False
  then show ?thesis by (subst plans_loop.simps) simp
next
  case True
  with assms have i: "i = month_number ed"
    by (simp add: first_of_month_less)
  then have same: "year (first_of_month i) = year ed \<and> month (first_of_month i) = month ed"
    using assms by (simp add: first_of_month_same)
  have "\<not> first_of_month (i + 1) < ed"
    using assms i by (simp add: first_of_month_less)
  then have "plans_loop base dd ed (first_of_month (i + 1)) st = Some st"
    by (subst plans_loop.simps) simp
  with True same assms show ?thesis
    by (subst plans_loop.simps) (simp add: addMonths_first_of_month)
qed

lemma plans_loop_fold:
  assumes "ce_date ed"
  shows "12 \<le> i \<Longrightarrow>
    plans_loop base dd ed (first_of_month i) st =
      Some (foldl (\<lambda>s mo. plan_month base dd mo s) st
              (map first_of_month [i .. month_number ed - 1]))"
proof (induction "nat (month_number ed - i)" arbitrary: i st)
  case 0
  then have "month_number ed \<le> i" by simp
  with 0 assms show ?case by (simp add: plans_loop_past_end)
next
  case (Suc n)
  then have lt: "i < month_number ed" by linarith
  with assms have less: "first_of_month i < ed" by (simp add: first_of_month_less)
  from lt assms have nsame:
    "\<not> (year (first_of_month i) = year ed \<and> month (first_of_month i) = month ed)"
    by (simp add: first_of_month_same)
  have n: "n = nat (month_number ed - (i + 1))" using Suc.hyps(2) by linarith
  have up: "[i .. month_number ed - 1] = i # [i + 1 .. month_number ed - 1]"
    using lt by (simp add: upto_rec1)
  have "plans_loop base dd ed (first_of_month i) st =
        plans_loop base dd ed (first_of_month (i + 1)) (plan_month base dd (first_of_month i) st)"
    using less nsame Suc.prems
    by (subst plans_loop.simps) (auto simp: addMonths_first_of_month)
  also have "\<dots> = Some (foldl (\<lambda>s mo. plan_month base dd mo s)
        (plan_month base dd (first_of_month i) st)
        (map first_of_month [i + 1 .. month_number ed - 1]))"
    using Suc.hyps(1) [OF n] Suc.prems by simp
  finally show ?case by (simp add: up)
qed

lemma update_fresh:
  "k \<notin> fst ` set al \<Longrightarrow> AList.update k v al = al @ [(k, v)]"
  by (induction al) auto

lemma plan_entries_snoc:
  "plan_entries base dd (ms @ [m]) =
     plan_entries base dd ms @
       [(toString_yyyy_MM m,
         adjusted_plan_of base (int (length ms) + 1) (cumulative_deposits dd (ms @ [m]) (Suc (length ms))))]"
  by (simp add: plan_entries_def cumulative_deposits_def nth_append)

lemma plan_entries_keys: "map fst (plan_entries base dd ms) = map toString_yyyy_MM ms"
proof -
  have "map fst (plan_entries base dd ms) = map toString_yyyy_MM (map ((!) ms) [0 ..< length ms])"
    by (simp add: plan_entries_def o_def)
  then show ?thesis by (simp only: map_nth)
qed

lemma cumulative_deposits_snoc:
  "cumulative_deposits dd (ms @ [m]) (Suc (length ms)) =
     cumulative_deposits dd ms (length ms) + monthly_fact_of dd (toString_yyyy_MM m)"
  by (simp add: cumulative_deposits_def)

lemma fold_plan_month:
  assumes "distinct (map toString_yyyy_MM ms)"
  shows "foldl (\<lambda>s mo. plan_month base dd mo s)
           \<lparr>month_index = 0, cumulative_fact = 0, monthly_plans = []\<rparr> ms =
         \<lparr>month_index = int (length ms),
          cumulative_fact = cumulative_deposits dd ms (length ms),
          monthly_plans = plan_entries base dd ms\<rparr>"
  using assms
proof (induction ms rule: rev_induct)
  case Nil
  then show ?case by (simp add: cumulative_deposits_def plan_entries_def)
next
  case (snoc m ms)
  have keys: "fst ` set (plan_entries base dd ms) = toString_yyyy_MM ` set ms"
    by (metis plan_entries_keys set_map)
  from snoc.prems have d: "distinct (map toString_yyyy_MM ms)"
    and fresh: "toString_yyyy_MM m \<notin> fst ` set (plan_entries base dd ms)"
    by (simp_all add: keys)
  have idx: "int (length ms) + 1 = 1 + int (length ms)" by simp
  show ?case
    using snoc.IH [OF d] update_fresh [OF fresh]
    by (simp add: plan_month_def Let_def plan_entries_snoc cumulative_deposits_snoc idx)
qed

lemma included_months_distinct:
  assumes "ce_date (start_date cs)"
  shows "distinct (map toString_yyyy_MM (included_months cs))"
proof -
  let ?l = "[month_number (start_date cs) .. month_number (end_date cs) - 1]"
  have "inj_on (\<lambda>i. toString_yyyy_MM (first_of_month i)) (set ?l)"
  proof (rule inj_onI)
    fix i j
    assume "i \<in> set ?l" "j \<in> set ?l"
      and eq: "toString_yyyy_MM (first_of_month i) = toString_yyyy_MM (first_of_month j)"
    then have "12 \<le> i" "12 \<le> j" using month_number_ce [OF assms] by simp_all
    then show "i = j" using eq by (rule month_key_inj)
  qed
  then have "distinct (map (\<lambda>i. toString_yyyy_MM (first_of_month i)) ?l)"
    by (simp add: distinct_map)
  then show ?thesis by (simp add: included_months_def o_def)
qed

lemma calculate_monthly_plans_closed:
  assumes "ce_date (start_date cs)" "ce_date (end_date cs)" "contract_amount cs \<noteq> 0"
  shows "calculate_monthly_plans cs tbl =
           Some (plan_entries (base_monthly_amount cs) (get_all_daily_data tbl) (included_months cs))"
proof -
  have cnt: "get_months_between_dates_including_start_excluding_end (start_date cs) (end_date cs) \<noteq> 0"
    by (simp add: get_months_between_dates_including_start_excluding_end_def Let_def)
  have "plans_loop (base_monthly_amount cs) (get_all_daily_data tbl) (end_date cs)
          (QDate (year (start_date cs)) (month (start_date cs)) 1)
          \<lparr>month_index = 0, cumulative_fact = 0, monthly_plans = []\<rparr>
        = Some \<lparr>month_index = int (length (included_months cs)),
            cumulative_fact = cumulative_deposits (get_all_daily_data tbl) (included_months cs)
                                (length (included_months cs)),
            monthly_plans = plan_entries (base_monthly_amount cs) (get_all_daily_data tbl)
                              (included_months cs)\<rparr>"
    using plans_loop_fold [OF assms(2) month_number_ce [OF assms(1)]]
      fold_plan_month [OF included_months_distinct [OF assms(1)]]
    by (simp add: QDate_first_of_month [OF assms(1)] included_months_def)
  with assms(3) cnt show ?thesis
    by (simp add: calculate_monthly_plans_def Let_def)
qed

section \<open>Properties of the monthly plan\<close>

lemma month_difference:
  "(year ed - year sd) * 12 + month ed - month sd = month_number ed - month_number sd"
  by (simp add: month_number_def algebra_simps)

lemma length_included_months:
  "length (included_months cs) = nat (month_number (end_date cs) - month_number (start_date cs))"
  by (simp add: included_months_def)

lemma monthly_fact_of_empty: "monthly_fact_of [] k = 0"
  by (simp add: monthly_fact_of_def)

lemma cumulative_deposits_empty: "cumulative_deposits [] ms k = 0"
  by (simp add: cumulative_deposits_def monthly_fact_of_empty)

lemma adjusted_plan_of_cases:
  "adjusted_plan_of base idx c =
     (if base * of_int idx < c then max 0 (base - (c - base * of_int idx)) else base)"
  by (simp add: adjusted_plan_of_def Let_def)

lemma plan_entries_empty_ledger:
  assumes "0 \<le> base"
  shows "plan_entries base [] ms = map (\<lambda>mo. (toString_yyyy_MM mo, base)) ms"
proof -
  have "\<And>k. adjusted_plan_of base (int k + 1) 0 = base"
  proof -
    fix k :: nat
    have "0 \<le> base * (real k + 1)" using assms by simp
    then show "adjusted_plan_of base (int k + 1) 0 = base"
      by (simp add: adjusted_plan_of_cases not_less)
  qed
  then have "plan_entries base [] ms =
      map (\<lambda>mo. (toString_yyyy_MM mo, base)) (map ((!) ms) [0 ..< length ms])"
    by (simp add: plan_entries_def cumulative_deposits_empty o_def)
  then show ?thesis by (simp only: map_nth)
qed

lemma base_monthly_amount_pos:
  "0 < contract_amount cs \<Longrightarrow> 0 < base_monthly_amount cs"
  by (simp add: base_monthly_amount_def
      get_months_between_dates_including_start_excluding_end_def Let_def)

text \<open>
  Claim C1, amended. For a contract with valid dates and an amount \<open>A > 0\<close>, and no deposit
  in the ledger, the plan has one entry for each month from the month of the start date
  up to, and without, the month of the end date, in this order and under distinct keys,
  and every value is \<open>A / N\<close> with \<open>N = max 1 ((end.year - start.year) * 12 + end.month -
  start.month)\<close>, the quotient that the program computes. When the end date lies in a later
  month than the start date, there are exactly \<open>N\<close> entries; otherwise the plan is empty.
  For the amount 0 the plan is empty. Nothing is stated about the sum of the values: the
  program adds and divides floating-point numbers, and \<open>N\<close> times the rounded quotient
  need not be \<open>A\<close>.
\<close>

theorem plans_without_deposits:
  assumes "ce_date (start_date cs)" and "ce_date (end_date cs)" and "0 \<le> contract_amount cs"
  shows "(contract_amount cs = 0 \<longrightarrow> calculate_monthly_plans cs [] = Some [])
    \<and> (0 < contract_amount cs \<longrightarrow>
    calculate_monthly_plans cs [] = Some (flat_plan cs)
    \<and> map fst (flat_plan cs) = map toString_yyyy_MM (included_months cs)
    \<and> distinct (map fst (flat_plan cs))
    \<and> snd ` set (flat_plan cs) \<subseteq>
        {contract_amount cs /
           of_int (max 1 ((year (end_date cs) - year (start_date cs)) * 12
                          + month (end_date cs) - month (start_date cs)))}
    \<and> (month_number (start_date cs) < month_number (end_date cs) \<longrightarrow>
         int (length (flat_plan cs)) =
           get_months_between_dates_including_start_excluding_end (start_date cs) (end_date cs))
    \<and> (month_number (end_date cs) \<le> month_number (start_date cs) \<longrightarrow> flat_plan cs = []))"
proof (cases "contract_amount cs = 0")
  case True
  then show ?thesis by (simp add: calculate_monthly_plans_def)
next
  case False
  with assms(3) have pos: "0 < contract_amount cs" by simp
  have base: "0 \<le> base_monthly_amount cs"
    using base_monthly_amount_pos [OF pos] by simp
  have run: "calculate_monthly_plans cs [] = Some (flat_plan cs)"
    using calculate_monthly_plans_closed [of cs "[]"] assms(1,2) False
    by (simp add: get_all_daily_data_def plan_entries_empty_ledger [OF base] flat_plan_def)
  have keys: "map fst (flat_plan cs) = map toString_yyyy_MM (included_months cs)"
    by (simp add: flat_plan_def o_def)
  have dist: "distinct (map fst (flat_plan cs))"
    unfolding keys using assms(1) by (rule included_months_distinct)
  have vals: "snd ` set (flat_plan cs) \<subseteq>
        {contract_amount cs /
           of_int (max 1 ((year (end_date cs) - year (start_date cs)) * 12
                          + month (end_date cs) - month (start_date cs)))}"
    by (auto simp: flat_plan_def base_monthly_amount_def
        get_months_between_dates_including_start_excluding_end_def Let_def)
  have full: "month_number (start_date cs) < month_number (end_date cs) \<longrightarrow>
         int (length (flat_plan cs)) =
           get_months_between_dates_including_start_excluding_end (start_date cs) (end_date cs)"
  proof
    assume lt: "month_number (start_date cs) < month_number (end_date cs)"
    let ?n = "month_number (end_date cs) - month_number (start_date cs)"
    have cnt: "get_months_between_dates_including_start_excluding_end (start_date cs) (end_date cs) = ?n"
      unfolding get_months_between_dates_including_start_excluding_end_def Let_def
        month_difference using lt by simp
    have len: "length (flat_plan cs) = nat ?n"
      by (simp add: flat_plan_def length_included_months)
    show "int (length (flat_plan cs)) =
           get_months_between_dates_including_start_excluding_end (start_date cs) (end_date cs)"
      using lt len cnt by simp
  qed
  have none: "month_number (end_date cs) \<le> month_number (start_date cs) \<longrightarrow> flat_plan cs = []"
    by (simp add: flat_plan_def included_months_def)
  from run keys dist vals full none pos show ?thesis by simp
qed

theorem plans_without_deposits_witness:
  "calculate_monthly_plans year_example [] = Some (flat_plan year_example)
   \<and> length (flat_plan year_example) = 12
   \<and> snd ` set (flat_plan year_example) \<subseteq> {1000}"
proof -
  have a: "ce_date (start_date year_example)" "ce_date (end_date year_example)"
    "0 \<le> contract_amount year_example"
    by (simp_all add: year_example_def ce_date_fields days_in_month_def)
  have b: "month_number (start_date year_example) < month_number (end_date year_example)"
    by (simp add: year_example_def month_number_def)
  have c: "get_months_between_dates_including_start_excluding_end
             (start_date year_example) (end_date year_example) = 12"
    by (simp add: year_example_def get_months_between_dates_including_start_excluding_end_def)
  have d: "0 < contract_amount year_example" by (simp add: year_example_def)
  have e: "contract_amount year_example /
      of_int (max 1 ((year (end_date year_example) - year (start_date year_example)) * 12
                     + month (end_date year_example) - month (start_date year_example))) = 1000"
    by (simp add: year_example_def)
  from plans_without_deposits [OF a] b c d e show ?thesis by simp
qed

theorem plans_without_deposits_counterexample:
  "calculate_monthly_plans zero_amount_example [] = Some []
   \<and> map toString_yyyy_MM (included_months zero_amount_example) =
       [''2024-01'', ''2024-02'', ''2024-03'', ''2024-04'', ''2024-05'', ''2024-06'',
        ''2024-07'', ''2024-08'', ''2024-09'', ''2024-10'', ''2024-11'', ''2024-12'']
   \<and> calculate_monthly_plans same_month_example [] = Some []
   \<and> get_months_between_dates_including_start_excluding_end
        (start_date same_month_example) (end_date same_month_example) = 1
   \<and> contract_amount same_month_example = 500"
  by code_simp

text \<open>
  Claim C2, amended. For a contract with valid dates and an amount \<open>A \<ge> 0\<close>, and any
  ledger, no plan value is negative. When \<open>A > 0\<close>, the plan of the included month with
  index \<open>k + 1\<close> is strictly less than the base amount if the deposits of the included
  months up to and with this month exceed the base amount times \<open>k + 1\<close>, and it is the
  base amount otherwise.
\<close>

theorem plan_adjusted_for_overpayment:
  assumes "ce_date (start_date cs)" and "ce_date (end_date cs)" and "0 \<le> contract_amount cs"
  shows "(\<exists>plans. calculate_monthly_plans cs tbl = Some plans \<and> (\<forall>v\<in>snd ` set plans. 0 \<le> v))
    \<and> (0 < contract_amount cs \<longrightarrow>
         calculate_monthly_plans cs tbl =
           Some (plan_entries (base_monthly_amount cs) (get_all_daily_data tbl) (included_months cs))
         \<and> length (plan_entries (base_monthly_amount cs) (get_all_daily_data tbl) (included_months cs))
             = length (included_months cs)
         \<and> (\<forall>k<length (included_months cs).
              fst (plan_entries (base_monthly_amount cs) (get_all_daily_data tbl) (included_months cs) ! k)
                = toString_yyyy_MM (included_months cs ! k)
              \<and> (base_monthly_amount cs * (of_nat k + 1)
                    < cumulative_deposits (get_all_daily_data tbl) (included_months cs) (Suc k)
                  \<longrightarrow> snd (plan_entries (base_monthly_amount cs) (get_all_daily_data tbl)
                              (included_months cs) ! k) < base_monthly_amount cs)
              \<and> (cumulative_deposits (get_all_daily_data tbl) (included_months cs) (Suc k)
                    \<le> base_monthly_amount cs * (of_nat k + 1)
                  \<longrightarrow> snd (plan_entries (base_monthly_amount cs) (get_all_daily_data tbl)
                              (included_months cs) ! k) = base_monthly_amount cs)))"
proof (cases "contract_amount cs = 0")
  case True
  then have "calculate_monthly_plans cs tbl = Some []"
    by (simp add: calculate_monthly_plans_def Let_def)
  with True show ?thesis by simp
next
  case False
  with assms(3) have pos: "0 < contract_amount cs" by simp
  let ?b = "base_monthly_amount cs"
  let ?dd = "get_all_daily_data tbl"
  let ?ms = "included_months cs"
  have b: "0 < ?b" using pos by (rule base_monthly_amount_pos)
  have run: "calculate_monthly_plans cs tbl = Some (plan_entries ?b ?dd ?ms)"
    using assms(1,2) False by (rule calculate_monthly_plans_closed)
  have len: "length (plan_entries ?b ?dd ?ms) = length ?ms"
    by (simp add: plan_entries_def)
  have entry: "\<And>k. k < length ?ms \<Longrightarrow>
      plan_entries ?b ?dd ?ms ! k =
        (toString_yyyy_MM (?ms ! k),
         adjusted_plan_of ?b (int k + 1) (cumulative_deposits ?dd ?ms (Suc k)))"
    by (simp add: plan_entries_def)
  have nonneg: "\<And>i c. 0 \<le> adjusted_plan_of ?b i c"
    using b by (simp add: adjusted_plan_of_cases)
  have "\<forall>v\<in>snd ` set (plan_entries ?b ?dd ?ms). 0 \<le> v"
    using nonneg by (auto simp: plan_entries_def)
  with run have first: "\<exists>plans. calculate_monthly_plans cs tbl = Some plans
      \<and> (\<forall>v\<in>snd ` set plans. 0 \<le> v)"
    by blast
  have each: "\<forall>k<length ?ms.
      fst (plan_entries ?b ?dd ?ms ! k) = toString_yyyy_MM (?ms ! k)
      \<and> (?b * (of_nat k + 1) < cumulative_deposits ?dd ?ms (Suc k)
           \<longrightarrow> snd (plan_entries ?b ?dd ?ms ! k) < ?b)
      \<and> (cumulative_deposits ?dd ?ms (Suc k) \<le> ?b * (of_nat k + 1)
           \<longrightarrow> snd (plan_entries ?b ?dd ?ms ! k) = ?b)"
  proof (intro allI impI)
    fix k assume k: "k < length ?ms"
    show "fst (plan_entries ?b ?dd ?ms ! k) = toString_yyyy_MM (?ms ! k)
      \<and> (?b * (of_nat k + 1) < cumulative_deposits ?dd ?ms (Suc k)
           \<longrightarrow> snd (plan_entries ?b ?dd ?ms ! k) < ?b)
      \<and> (cumulative_deposits ?dd ?ms (Suc k) \<le> ?b * (of_nat k + 1)
           \<longrightarrow> snd (plan_entries ?b ?dd ?ms ! k) = ?b)"
      using b by (auto simp: entry [OF k] adjusted_plan_of_cases)
  qed
  from first run len each show ?thesis by blast
qed

theorem plan_adjusted_for_overpayment_witness:
  "calculate_monthly_plans year_example overpaid_table =
     Some (plan_entries (base_monthly_amount year_example) (get_all_daily_data overpaid_table)
             (included_months year_example))
   \<and> snd (plan_entries (base_monthly_amount year_example) (get_all_daily_data overpaid_table)
            (included_months year_example) ! 0) < base_monthly_amount year_example"
proof -
  have a: "ce_date (start_date year_example)" "ce_date (end_date year_example)"
    "0 \<le> contract_amount year_example"
    by (simp_all add: year_example_def ce_date_fields days_in_month_def)
  have p: "0 < contract_amount year_example" by (simp add: year_example_def)
  have k: "0 < length (included_months year_example)" by code_simp
  have c: "base_monthly_amount year_example * (of_nat 0 + 1)
      < cumulative_deposits (get_all_daily_data overpaid_table) (included_months year_example) (Suc 0)"
    by code_simp
  from plan_adjusted_for_overpayment [OF a, of overpaid_table] p k c show ?thesis by blast
qed

theorem plan_adjusted_for_overpayment_counterexample:
  "base_monthly_amount year_example * 1
     < cumulative_deposits (get_all_daily_data overpaid_table) (included_months year_example) 1
   \<and> base_monthly_amount year_example = 1000
   \<and> calculate_monthly_plans year_example overpaid_table =
       Some [(''2024-01'', 500), (''2024-02'', 1000), (''2024-03'', 1000), (''2024-04'', 1000),
             (''2024-05'', 1000), (''2024-06'', 1000), (''2024-07'', 1000), (''2024-08'', 1000),
             (''2024-09'', 1000), (''2024-10'', 1000), (''2024-11'', 1000), (''2024-12'', 1000)]"
  by code_simp

section \<open>The daily simulation\<close>

lemma nextDay_ce:
  assumes "ce_date dt"
  shows "ce_date (nextDay dt)" and "dt < nextDay dt" and "addDays dt 1 = nextDay dt"
proof -
  obtain y m d where dt: "dt = (y, m, d)" by (cases dt)
  with assms have f: "1 \<le> y" "1 \<le> m" "m \<le> 12" "1 \<le> d" "d \<le> days_in_month y m"
    by (simp_all add: ce_date_fields)
  show "ce_date (nextDay dt)"
    using f dt days_in_month_bounds [of "m + 1" y] days_in_month_bounds [of 1 "y + 1"]
    by (auto simp: nextDay_def ce_date_fields)
  show "dt < nextDay dt"
    using f dt by (auto simp: nextDay_def qdate_less)
  show "addDays dt 1 = nextDay dt"
    using assms by (simp add: addDays_def ce_date_def)
qed


lemma days_left_decreases:
  assumes "ce_date dt" "nextDay dt < e"
  shows "days_left e (nextDay dt) < days_left e dt"
proof -
  obtain y m d where dt: "dt = (y, m, d)" by (cases dt)
  obtain y' m' d' where e: "e = (y', m', d')" by (cases e)
  from assms dt have f: "1 \<le> y" "1 \<le> m" "m \<le> 12" "1 \<le> d" "d \<le> days_in_month y m"
    by (simp_all add: ce_date_fields)
  have d31: "d \<le> 31" using f(5) days_in_month_le [of y m] by linarith
  from nextDay_ce(1) [OF assms(1)] have n: "ce_date (nextDay dt)" .
  show ?thesis
  proof (cases "d < days_in_month y m")
    case True
    then have nd: "nextDay (y, m, d) = (y, m, d + 1)" by (simp add: nextDay_def)
    from assms(2) have "y \<le> y'" unfolding dt nd e by (auto simp: qdate_less)
    then have "0 \<le> (y' - y) * 12" by simp
    moreover have "d < 31" using True days_in_month_le [of y m] by linarith
    ultimately show ?thesis
      using f unfolding dt nd e days_left_def by simp
  next
    case False
    show ?thesis
    proof (cases "m < 12")
      case True
      with False have nd: "nextDay (y, m, d) = (y, m + 1, 1)" by (simp add: nextDay_def)
      from assms(2) have "y \<le> y'" unfolding dt nd e by (auto simp: qdate_less)
      then have "0 \<le> (y' - y) * 12" by simp
      with f d31 True show ?thesis
        unfolding dt nd e days_left_def by simp
    next
      case m12: False
      with False f have nd: "nextDay (y, m, d) = (y + 1, 1, 1)" by (simp add: nextDay_def)
      from assms(2) have "y + 1 \<le> y'" unfolding dt nd e by (auto simp: qdate_less)
      then have "0 \<le> (y' - (y + 1)) * 12" by simp
      with f d31 m12 show ?thesis
        unfolding dt nd e days_left_def by simp
    qed
  qed
qed

lemma daysInYear_ce: "ce_date dt \<Longrightarrow> daysInYear dt = 365 \<or> daysInYear dt = 366"
  by (simp add: daysInYear_def ce_date_def)

lemma daily_interest_of_ce:
  "ce_date dt \<Longrightarrow>
   daily_interest_of cs b dt =
     Inr ((b * get_effective_rate_on_date dt cs / 100) / of_int (daysInYear dt))"
  using daysInYear_ce [of dt] by (auto simp: daily_interest_of_def Let_def)

lemma sim_day_ce:
  assumes "ce_date dt"
  shows "\<exists>st'. sim_day cs pays tps dt st = Inr st'"
  using daily_interest_of_ce [OF assms]
  by (simp add: sim_day_def accrue_def)

lemma simulate_invariant:
  assumes step: "\<And>d st. ce_date d \<Longrightarrow> P st \<Longrightarrow> \<exists>st'. sim_day cs pays tps d st = Inr st' \<and> P st'"
  shows "ce_date iter \<Longrightarrow> P st \<Longrightarrow>
         \<exists>st'. simulate cs pays tps e iter st = Some (Inr st') \<and> P st'"
proof (induction "days_left e iter" arbitrary: iter st rule: less_induct)
  case less
  show ?case
  proof (cases "iter < e")
    case False
    then have "simulate cs pays tps e iter st = Some (Inr st)"
      by (subst simulate.simps) simp
    with less.prems show ?thesis by simp
  next
    case True
    from step [OF less.prems] obtain st1 where
      s1: "sim_day cs pays tps iter st = Inr st1" and p1: "P st1" by blast
    from nextDay_ce [OF less.prems(1)] have n: "ce_date (nextDay iter)"
      and a: "addDays iter 1 = nextDay iter" by simp_all
    have unfold: "simulate cs pays tps e iter st = simulate cs pays tps e (nextDay iter) st1"
      using True s1 a by (subst simulate.simps) simp
    show ?thesis
    proof (cases "nextDay iter < e")
      case False
      then have "simulate cs pays tps e (nextDay iter) st1 = Some (Inr st1)"
        by (subst simulate.simps) simp
      with unfold p1 show ?thesis by simp
    next
      case nlt: True
      from days_left_decreases [OF less.prems(1) nlt]
      have "\<exists>st'. simulate cs pays tps e (nextDay iter) st1 = Some (Inr st') \<and> P st'"
        using less.hyps n p1 by blast
      with unfold show ?thesis by simp
    qed
  qed
qed

lemma simulate_total:
  "ce_date iter \<Longrightarrow> \<exists>st'. simulate cs pays tps e iter st = Some (Inr st')"
  using simulate_invariant [where P = "\<lambda>s. True" and cs = cs and pays = pays and tps = tps
      and iter = iter and st = st and e = e]
    sim_day_ce by blast


section \<open>Properties of the monthly interest\<close>

lemma accrual_date_clamped:
  assumes "isValid (start_date cs)" "y \<noteq> 0" "1 \<le> m" "m \<le> 12"
  shows "accrual_date_of cs y m = (y, m, min (day (start_date cs)) (days_in_month y m))"
proof -
  let ?cd = "day (start_date cs)"
  from assms(1) have cd: "1 \<le> ?cd" by (simp add: isValid_def)
  from days_in_month_bounds [OF assms(3,4), of y]
  have dim: "28 \<le> days_in_month y m" by simp
  have null: "\<not> isValid nullDate" by (simp add: nullDate_def isValid_def)
  show ?thesis
  proof (cases "?cd \<le> days_in_month y m")
    case True
    with cd assms have "isValid (y, m, ?cd)" by (simp add: isValid_fields)
    with True show ?thesis by (simp add: accrual_date_of_def QDate_def Let_def)
  next
    case False
    with cd assms have nv: "\<not> isValid (y, m, ?cd)" by (simp add: isValid_fields)
    from dim assms have v1: "isValid (y, m, 1)" and vl: "isValid (y, m, days_in_month y m)"
      by (simp_all add: isValid_fields)
    from False nv v1 vl null show ?thesis
      by (simp add: accrual_date_of_def QDate_def Let_def daysInMonth_def)
  qed
qed

text \<open>
  Claim C5. For a month (\<open>y\<close>, \<open>m\<close>), the accrual date is the day of that month with the
  day number of the start date, or the last day of the month when the month is too short
  for it. The target period starts one month before the accrual date, but not before the
  start date, and the simulation ends at the earlier of the accrual date and today. The
  monthly interest is exactly 0 when the accrual date is not after the start date, and
  when the target period does not start before the end of the simulation.
\<close>

theorem accrual_date_and_zero_interest:
  assumes "isValid (start_date cs)" and "y \<noteq> 0" and "1 \<le> m" and "m \<le> 12"
  shows "accrual_date_of cs y m = (y, m, min (day (start_date cs)) (days_in_month y m))
    \<and> isValid (accrual_date_of cs y m)
    \<and> target_period_start_of cs y m
        = max (addMonths (accrual_date_of cs y m) (- 1)) (start_date cs)
    \<and> simulation_end_date_of cs today y m = min (accrual_date_of cs y m) today
    \<and> (accrual_date_of cs y m \<le> start_date cs
        \<or> simulation_end_date_of cs today y m \<le> target_period_start_of cs y m
       \<longrightarrow> calculate_monthly_interest cs tbl today y m = Some (Inr 0))"
proof -
  have acc: "accrual_date_of cs y m = (y, m, min (day (start_date cs)) (days_in_month y m))"
    using assms by (rule accrual_date_clamped)
  from assms(1) have "1 \<le> day (start_date cs)" by (simp add: isValid_def)
  with days_in_month_bounds [OF assms(3,4), of y] assms
  have valid: "isValid (accrual_date_of cs y m)"
    unfolding acc by (simp add: isValid_fields)
  have tps: "target_period_start_of cs y m
        = max (addMonths (accrual_date_of cs y m) (- 1)) (start_date cs)"
    by (auto simp: target_period_start_of_def Let_def max_def)
  have se: "simulation_end_date_of cs today y m = min (accrual_date_of cs y m) today"
    by (simp add: simulation_end_date_of_def)
  have zero: "accrual_date_of cs y m \<le> start_date cs
        \<or> simulation_end_date_of cs today y m \<le> target_period_start_of cs y m
       \<longrightarrow> calculate_monthly_interest cs tbl today y m = Some (Inr 0)"
    by (simp add: calculate_monthly_interest_def)
  from acc valid tps se zero show ?thesis by blast
qed

theorem accrual_date_and_zero_interest_witness:
  "accrual_date_of month_end_example 2024 2 = (2024, 2, 29)
   \<and> accrual_date_of month_end_example 2024 1 \<le> start_date month_end_example
   \<and> calculate_monthly_interest month_end_example [] (2024, 6, 1) 2024 1 = Some (Inr 0)"
proof -
  have v: "isValid (start_date month_end_example)"
    by (simp add: month_end_example_def isValid_fields days_in_month_def)
  have d: "min (day (start_date month_end_example)) (days_in_month 2024 2) = 29"
    "min (day (start_date month_end_example)) (days_in_month 2024 1) = 31"
    by (simp_all add: month_end_example_def days_in_month_def isLeapYear_def)
  have s: "start_date month_end_example = (2024, 1, 31)"
    by (simp add: month_end_example_def)
  from accrual_date_and_zero_interest [OF v, of 2024 2 "(2024, 6, 1)" "[]"]
  have a: "accrual_date_of month_end_example 2024 2 = (2024, 2, 29)"
    using d by simp
  from accrual_date_and_zero_interest [OF v, of 2024 1 "(2024, 6, 1)" "[]"]
  have b: "accrual_date_of month_end_example 2024 1 = (2024, 1, 31)"
    and c: "accrual_date_of month_end_example 2024 1 \<le> start_date month_end_example
        \<or> simulation_end_date_of month_end_example (2024, 6, 1) 2024 1
             \<le> target_period_start_of month_end_example 2024 1
       \<longrightarrow> calculate_monthly_interest month_end_example [] (2024, 6, 1) 2024 1 = Some (Inr 0)"
    using d by simp_all
  from a b c s show ?thesis by simp
qed













section \<open>Properties of the accumulated interest\<close>

lemma ce_date_parts:
  assumes "ce_date dt"
  shows "year dt = month_number dt div 12" and "month dt = month_number dt mod 12 + 1"
    and "first_of_month (month_number dt) \<le> dt"
proof -
  obtain y m d where dt: "dt = (y, m, d)" by (cases dt)
  with assms have f: "1 \<le> m" "m \<le> 12" "1 \<le> d" by (simp_all add: ce_date_fields)
  from first_of_month_number [OF assms] dt
  have fm: "first_of_month (month_number dt) = (y, m, 1)" by simp
  then show "year dt = month_number dt div 12" "month dt = month_number dt mod 12 + 1"
    unfolding dt by (simp_all add: first_of_month_def)
  show "first_of_month (month_number dt) \<le> dt"
    unfolding fm using f unfolding dt by (simp add: qdate_le)
qed

lemma month_number_mono:
  assumes "ce_date a" "ce_date b" "month_number a < month_number b"
  shows "a < b"
proof -
  obtain y m d where a: "a = (y, m, d)" by (cases a)
  obtain y' m' d' where b: "b = (y', m', d')" by (cases b)
  from assms a have fa: "1 \<le> m" "m \<le> 12" by (simp_all add: ce_date_fields)
  from assms b have fb: "1 \<le> m'" "m' \<le> 12" by (simp_all add: ce_date_fields)
  from assms(3) have "y * 12 + (m - 1) < y' * 12 + (m' - 1)"
    unfolding a b by (simp add: month_number_def)
  with fa fb have "y < y' \<or> (y = y' \<and> m < m')" by linarith
  then show ?thesis unfolding a b by (auto simp: qdate_less)
qed

lemma first_of_month_after:
  assumes "ce_date up" "12 \<le> j"
  shows "up < first_of_month j \<longleftrightarrow> month_number up < j"
proof -
  have "up < first_of_month j \<longleftrightarrow> \<not> first_of_month j \<le> up" by auto
  also have "first_of_month j \<le> up \<longleftrightarrow> first_of_month j < up \<or> first_of_month j = up"
    by auto
  also have "first_of_month j < up \<longleftrightarrow> j < month_number up \<or> (j = month_number up \<and> 1 < day up)"
    using assms(1) by (rule first_of_month_less)
  finally have e: "up < first_of_month j \<longleftrightarrow>
      \<not> ((j < month_number up \<or> (j = month_number up \<and> 1 < day up)) \<or> first_of_month j = up)" .
  have eq: "first_of_month j = up \<longleftrightarrow> j = month_number up \<and> day up = 1"
  proof
    assume "first_of_month j = up"
    then show "j = month_number up \<and> day up = 1"
      by (metis month_number_first_of_month day.simps first_of_month_def)
  next
    assume h: "j = month_number up \<and> day up = 1"
    with first_of_month_number [OF assms(1)] show "first_of_month j = up"
      by (cases up) simp
  qed
  from assms(1) have "1 \<le> day up" by (cases up) (simp add: ce_date_fields)
  with e eq show ?thesis by auto
qed

lemma total_loop_sum:
  assumes "ce_date up"
  shows "ce_date ccd \<Longrightarrow>
    total_loop cs tbl today up ccd acc =
      sum_results acc
        (map (\<lambda>i. calculate_monthly_interest cs tbl today
                     (year (first_of_month i)) (month (first_of_month i)))
           [month_number ccd .. month_number up])"
proof (induction "nat (month_number up + 1 - month_number ccd)" arbitrary: ccd acc)
  case 0
  then have gt: "month_number up < month_number ccd" by linarith
  then have empty: "[month_number ccd .. month_number up] = []" by simp
  have q: "QDate (year ccd) (month ccd) 1 = first_of_month (month_number ccd)"
    using "0.prems" by (rule QDate_first_of_month)
  have a: "up < first_of_month (month_number ccd)"
    using gt first_of_month_after [OF assms month_number_ce [OF "0.prems"]] by simp
  with ce_date_parts(3) [OF "0.prems"] have b: "up < ccd" by simp
  have "total_loop cs tbl today up ccd acc = Some (Inr acc)"
    using a b q by (subst total_loop.simps) simp
  with empty show ?case by simp
next
  case (Suc n)
  let ?j = "month_number ccd"
  from Suc.hyps(2) have le: "?j \<le> month_number up" by linarith
  have up1: "ce_date (addMonths up 1)" "month_number (addMonths up 1) = month_number up + 1"
    using addMonths_ce [OF assms] by simp_all
  have c1: "ccd \<le> addMonths up 1"
    using month_number_mono [OF Suc.prems up1(1)] le up1(2) by simp
  have q: "QDate (year ccd) (month ccd) 1 = first_of_month ?j"
    using Suc.prems by (rule QDate_first_of_month)
  have nb: "\<not> up < first_of_month ?j"
    using le first_of_month_after [OF assms month_number_ce [OF Suc.prems]] by simp
  have ym: "year ccd = year (first_of_month ?j)" "month ccd = month (first_of_month ?j)"
    using ce_date_parts(1,2) [OF Suc.prems] by (simp_all add: first_of_month_def)
  have nx: "ce_date (addMonths ccd 1)" "month_number (addMonths ccd 1) = ?j + 1"
    using addMonths_ce [OF Suc.prems] by simp_all
  have n: "n = nat (month_number up + 1 - month_number (addMonths ccd 1))"
    using Suc.hyps(2) nx(2) by linarith
  have list: "[?j .. month_number up] = ?j # [?j + 1 .. month_number up]"
    using le by (simp add: upto_rec1)
  have "total_loop cs tbl today up ccd acc =
      (case calculate_monthly_interest cs tbl today
              (year (first_of_month ?j)) (month (first_of_month ?j)) of
         None \<Rightarrow> None
       | Some (Inl e) \<Rightarrow> Some (Inl e)
       | Some (Inr interest) \<Rightarrow>
           total_loop cs tbl today up (addMonths ccd 1) (acc + interest))"
    using c1 nb q ym by (subst total_loop.simps) simp
  also have "\<dots> = sum_results acc
        (map (\<lambda>i. calculate_monthly_interest cs tbl today
                     (year (first_of_month i)) (month (first_of_month i)))
           [?j .. month_number up])"
    unfolding list using Suc.hyps(1) [OF n nx(1)] nx(2)
    by (simp split: option.splits sum.splits)
  finally show ?case .
qed

lemma calculate_monthly_interest_total:
  assumes "ce_date (start_date cs)"
  shows "\<exists>v. calculate_monthly_interest cs tbl today y m = Some (Inr v)"
proof -
  from simulate_total [OF assms] obtain st' where
    "simulate cs (get_all_daily_data tbl) (target_period_start_of cs y m)
       (simulation_end_date_of cs today y m) (start_date cs)
       \<lparr>current_balance = 0, interest_for_target_period = 0\<rparr> = Some (Inr st')"
    by blast
  then show ?thesis by (simp add: calculate_monthly_interest_def)
qed

lemma sum_results_values:
  "sum_results acc (map (\<lambda>v. Some (Inr v)) vs) = Some (Inr (acc + sum_list vs))"
  by (induction vs arbitrary: acc) (simp_all add: add.assoc)

lemma all_values:
  fixes rs :: "(py_error + real) option list"
  shows "(\<forall>r\<in>set rs. \<exists>v. r = Some (Inr v)) \<Longrightarrow> \<exists>vs. rs = map (\<lambda>v. Some (Inr v)) vs"
proof (induction rs)
  case Nil
  then show ?case by simp
next
  case (Cons r rs)
  then obtain v vs where "r = Some (Inr v)" "rs = map (\<lambda>v. Some (Inr v)) vs" by auto
  then have "r # rs = map (\<lambda>v. Some (Inr v)) (v # vs)" by simp
  then show ?case by (rule exI)
qed

text \<open>
  Claim C6. The total is 0 when \<open>up_to_date\<close> is not after the start date. Otherwise it is
  the monthly interest added up over the months from the month after that of the start
  date up to and with the month of \<open>up_to_date\<close>, in this order, and over no other month:
  every one of these monthly computations returns a value, and the total is their sum.
\<close>

theorem total_interest_sums_months:
  assumes "ce_date (start_date cs)" and "ce_date up"
  shows "(up \<le> start_date cs \<longrightarrow>
            get_total_accumulated_interest cs tbl today up = Some (Inr 0))
    \<and> (start_date cs < up \<longrightarrow>
         get_total_accumulated_interest cs tbl today up
           = sum_results 0 (monthly_results cs tbl today up)
         \<and> (\<exists>vs. monthly_results cs tbl today up = map (\<lambda>v. Some (Inr v)) vs
               \<and> get_total_accumulated_interest cs tbl today up = Some (Inr (sum_list vs))))"
proof -
  have zero: "up \<le> start_date cs \<longrightarrow>
            get_total_accumulated_interest cs tbl today up = Some (Inr 0)"
    by (simp add: get_total_accumulated_interest_def)
  have rest: "start_date cs < up \<longrightarrow>
         get_total_accumulated_interest cs tbl today up
           = sum_results 0 (monthly_results cs tbl today up)
         \<and> (\<exists>vs. monthly_results cs tbl today up = map (\<lambda>v. Some (Inr v)) vs
               \<and> get_total_accumulated_interest cs tbl today up = Some (Inr (sum_list vs)))"
  proof
    assume lt: "start_date cs < up"
    from addMonths_ce [OF assms(1)] have nx: "ce_date (addMonths (start_date cs) 1)"
      "month_number (addMonths (start_date cs) 1) = month_number (start_date cs) + 1"
      by simp_all
    have run: "get_total_accumulated_interest cs tbl today up
           = sum_results 0 (monthly_results cs tbl today up)"
      using lt total_loop_sum [OF assms(2) nx(1), of cs tbl today 0] nx(2)
      by (simp add: get_total_accumulated_interest_def monthly_results_def not_le)
    have "\<forall>r\<in>set (monthly_results cs tbl today up). \<exists>v. r = Some (Inr v)"
      using calculate_monthly_interest_total [OF assms(1)]
      by (auto simp: monthly_results_def)
    then obtain vs where vs: "monthly_results cs tbl today up = map (\<lambda>v. Some (Inr v)) vs"
      using all_values by blast
    with run have "get_total_accumulated_interest cs tbl today up = Some (Inr (sum_list vs))"
      by (simp add: sum_results_values)
    with run vs
    show "get_total_accumulated_interest cs tbl today up
           = sum_results 0 (monthly_results cs tbl today up)
         \<and> (\<exists>vs. monthly_results cs tbl today up = map (\<lambda>v. Some (Inr v)) vs
               \<and> get_total_accumulated_interest cs tbl today up = Some (Inr (sum_list vs)))"
      by blast
  qed
  from zero rest show ?thesis by blast
qed

theorem total_interest_sums_months_witness:
  "get_total_accumulated_interest year_example (first_day_deposit year_example) (2024, 6, 1) (2024, 3, 15)
     = sum_results 0
         [calculate_monthly_interest year_example (first_day_deposit year_example) (2024, 6, 1) 2024 2,
          calculate_monthly_interest year_example (first_day_deposit year_example) (2024, 6, 1) 2024 3]
   \<and> get_total_accumulated_interest year_example (first_day_deposit year_example) (2024, 6, 1) (2023, 3, 15)
     = Some (Inr 0)"
proof -
  have a: "ce_date (start_date year_example)"
    by (simp add: year_example_def ce_date_fields days_in_month_def)
  have b: "ce_date (2024, 3, 15)" "ce_date (2023, 3, 15)"
    by (simp_all add: ce_date_fields days_in_month_def)
  have c: "start_date year_example < (2024, 3, 15)" "(2023, 3, 15) \<le> start_date year_example"
    by (simp_all add: year_example_def qdate_less qdate_le)
  have m: "monthly_results year_example (first_day_deposit year_example) (2024, 6, 1) (2024, 3, 15)
      = [calculate_monthly_interest year_example (first_day_deposit year_example) (2024, 6, 1) 2024 2,
         calculate_monthly_interest year_example (first_day_deposit year_example) (2024, 6, 1) 2024 3]"
    by (simp add: monthly_results_def year_example_def month_number_def first_of_month_def upto_rec1)
  from total_interest_sums_months [OF a b(1), of "first_day_deposit year_example" "(2024, 6, 1)"]
    total_interest_sums_months [OF a b(2), of "first_day_deposit year_example" "(2024, 6, 1)"]
    c m
  show ?thesis by simp
qed

end
